theory Spec2Isabelle
  imports Main "HOL-Library.Multiset" "HOL-Library.Word"
begin

section \<open>Data model of \<^verbatim>\<open>src/main.cpp\<close>\<close>

text \<open>
  A C++ \<^verbatim>\<open>int\<close> is held as its integer value; where the source adds or multiplies
  such values for the ranking, the result wraps around at 32 bits (\<open>wrap32\<close>), as the
  compiled program does. A submission's time is only stored, and a wrong-attempt counter
  grows by one for each submission. \<^verbatim>\<open>std::string\<close> is a list of bytes, \<^verbatim>\<open>std::map\<close> a
  partial function, \<^verbatim>\<open>std::vector\<close> a list.
\<close>

definition wrap32 :: "int \<Rightarrow> int" where
  "wrap32 x = (x + 2147483648) mod 4294967296 - 2147483648"

record Submission =
  problem :: string
  status :: string
  time :: int

record ProblemStatus =
  solved :: bool
  solveTime :: int
  wrongAttempts :: int
  frozenSubs :: "Submission list"
  wasSolvedBeforeFreeze :: bool

text \<open>The constructor \<^verbatim>\<open>ProblemStatus()\<close>.\<close>

definition ProblemStatus0 :: ProblemStatus where
  "ProblemStatus0 =
     \<lparr>solved = False, solveTime = 0, wrongAttempts = 0, frozenSubs = [],
      wasSolvedBeforeFreeze = False\<rparr>"

record Team =
  name :: string
  problems :: "string \<rightharpoonup> ProblemStatus"
  submissions :: "Submission list"

text \<open>The constructor \<^verbatim>\<open>Team(string n = "")\<close>.\<close>

definition TeamNew :: "string \<Rightarrow> Team" where
  "TeamNew n = \<lparr>name = n, problems = Map.empty, submissions = []\<rparr>"

record ICPCSystem =
  teams :: "string \<rightharpoonup> Team"
  teamNames :: "string list"
  started :: bool
  frozen :: bool
  durationTime :: int
  problemCount :: int
  problemList :: "string list"
  lastRanking :: "(string \<times> int) list"

text \<open>The constructor \<^verbatim>\<open>ICPCSystem()\<close>.\<close>

definition ICPCSystem0 :: ICPCSystem where
  "ICPCSystem0 =
     \<lparr>teams = Map.empty, teamNames = [], started = False, frozen = False,
      durationTime = 0, problemCount = 0, problemList = [], lastRanking = []\<rparr>"

record TeamRankInfo =
  info_name :: string
  info_solved :: int
  info_penalty :: int
  info_times :: "int list"

text \<open>
  Reading \<^verbatim>\<open>teams[k]\<close> and \<^verbatim>\<open>problems[k]\<close>: \<^verbatim>\<open>operator[]\<close> yields the stored value, or a
  default-constructed one for a missing key. (For a missing key the source also inserts
  the default; lemma \<open>reach_registered\<close> below shows that every read outside \<^verbatim>\<open>submit\<close>
  and the scroll step hits a stored key, and those two write the entry back.)
\<close>

definition team_at :: "ICPCSystem \<Rightarrow> string \<Rightarrow> Team" where
  "team_at s k = (case teams s k of None \<Rightarrow> TeamNew [] | Some t \<Rightarrow> t)"

definition problem_at :: "Team \<Rightarrow> string \<Rightarrow> ProblemStatus" where
  "problem_at t p = (case problems t p of None \<Rightarrow> ProblemStatus0 | Some ps \<Rightarrow> ps)"

section \<open>Comparisons\<close>

text \<open>
  \<^verbatim>\<open>std::lexicographical_compare\<close>, which is \<^verbatim>\<open>operator<\<close> of \<^verbatim>\<open>std::vector<int>\<close> and, on
  the bytes read as unsigned, of \<^verbatim>\<open>std::string\<close>.
\<close>

fun lex_less :: "'a::linorder list \<Rightarrow> 'a list \<Rightarrow> bool" where
  "lex_less [] [] = False"
| "lex_less [] (y # ys) = True"
| "lex_less (x # xs) [] = False"
| "lex_less (x # xs) (y # ys) =
     (if x < y then True else if y < x then False else lex_less xs ys)"

definition str_less :: "string \<Rightarrow> string \<Rightarrow> bool" where
  "str_less a b = lex_less (map of_char a :: nat list) (map of_char b)"

text \<open>The lambda passed to \<^verbatim>\<open>sort\<close> in \<^verbatim>\<open>calculateRanking\<close>.\<close>

definition better :: "TeamRankInfo \<Rightarrow> TeamRankInfo \<Rightarrow> bool" where
  "better ta tb =
     (if info_solved ta \<noteq> info_solved tb then info_solved ta > info_solved tb
      else if info_penalty ta \<noteq> info_penalty tb then info_penalty ta < info_penalty tb
      else if info_times ta \<noteq> info_times tb then lex_less (info_times ta) (info_times tb)
      else str_less (info_name ta) (info_name tb))"

text \<open>
  \<^verbatim>\<open>std::sort\<close> with a comparator, as insertion sort. Lemma \<open>sort_by_unique\<close> below shows
  that for a comparator that is a strict linear order on the elements every sorted
  permutation is this list, so the choice of algorithm is immaterial.
\<close>

fun insert_by :: "('a \<Rightarrow> 'a \<Rightarrow> bool) \<Rightarrow> 'a \<Rightarrow> 'a list \<Rightarrow> 'a list" where
  "insert_by lt x [] = [x]"
| "insert_by lt x (y # ys) = (if lt x y then x # y # ys else y # insert_by lt x ys)"

definition sort_by :: "('a \<Rightarrow> 'a \<Rightarrow> bool) \<Rightarrow> 'a list \<Rightarrow> 'a list" where
  "sort_by lt xs = foldr (insert_by lt) xs []"

section \<open>The ranking calculator\<close>

definition counted :: "ProblemStatus \<Rightarrow> bool" where
  "counted ps = (solved ps \<and> wasSolvedBeforeFreeze ps)"

text \<open>The body of the loop over \<^verbatim>\<open>problemList\<close> in \<^verbatim>\<open>getTeamRankInfo\<close>.\<close>

definition rank_step :: "Team \<Rightarrow> TeamRankInfo \<Rightarrow> string \<Rightarrow> TeamRankInfo" where
  "rank_step t info prob =
     (case problems t prob of
        None \<Rightarrow> info
      | Some ps \<Rightarrow>
          if counted ps
          then info\<lparr>info_solved := wrap32 (info_solved info + 1),
                    info_penalty :=
                      wrap32 (info_penalty info
                              + wrap32 (solveTime ps + wrap32 (20 * wrongAttempts ps))),
                    info_times := info_times info @ [solveTime ps]\<rparr>
          else info)"

definition getTeamRankInfo :: "ICPCSystem \<Rightarrow> string \<Rightarrow> TeamRankInfo" where
  "getTeamRankInfo s teamName =
     (let info = foldl (rank_step (team_at s teamName))
                   \<lparr>info_name = teamName, info_solved = 0, info_penalty = 0, info_times = []\<rparr>
                   (problemList s)
      in info\<lparr>info_times := rev (sort (info_times info))\<rparr>)"

definition rank_indices :: "ICPCSystem \<Rightarrow> nat list" where
  "rank_indices s =
     (let infos = map (getTeamRankInfo s) (teamNames s)
      in sort_by (\<lambda>a b. better (infos ! a) (infos ! b)) [0..<length (teamNames s)])"

definition calculateRanking :: "ICPCSystem \<Rightarrow> (string \<times> int) list" where
  "calculateRanking s =
     (let indices = rank_indices s
      in map (\<lambda>i. (teamNames s ! (indices ! i), int i + 1)) [0..<length indices])"

section \<open>Output lines\<close>

text \<open>
  What the program writes to \<^verbatim>\<open>cout\<close>, one constructor per kind of line. A scoreboard
  row is the team's name, rank, solved count, penalty and one cell per problem:
  \<open>CellSolved w\<close> prints \<^verbatim>\<open>+\<close> and \<open>w\<close> when positive, \<open>CellFrozen w k\<close> prints
  \<^verbatim>\<open>w/k\<close> (with a leading \<^verbatim>\<open>-\<close> when \<open>w\<close> is positive), \<open>CellWrong w\<close> prints \<^verbatim>\<open>-w\<close>
  and \<open>CellNone\<close> a dot.
\<close>

datatype cell = CellSolved int | CellFrozen int nat | CellWrong int | CellNone

type_synonym row = "string \<times> int \<times> int \<times> int \<times> cell list"

datatype event =
    AddOk | AddFailStarted | AddFailDuplicated
  | StartOk | StartFail
  | FlushInfo
  | FreezeOk | FreezeFail
  | ScrollFail | ScrollInfo
  | ScoreboardRow row
  | RankChange string string int int
  | QueryRankingFail | QueryRankingInfo | QueryRankingWarning
  | NowAtRanking string int
  | QuerySubmissionFail | QuerySubmissionInfo
  | FoundSubmission string string string int
  | NoSubmission
  | EndInfo

datatype error = LengthError

section \<open>The scoreboard printer\<close>

definition cell_of :: "Team \<Rightarrow> string \<Rightarrow> cell" where
  "cell_of t prob =
     (case problems t prob of
        None \<Rightarrow> CellNone
      | Some ps \<Rightarrow>
          if counted ps then CellSolved (wrongAttempts ps)
          else if frozenSubs ps \<noteq> [] then CellFrozen (wrongAttempts ps) (length (frozenSubs ps))
          else if wrongAttempts ps > 0 then CellWrong (wrongAttempts ps)
          else CellNone)"

text \<open>The inner loop of \<^verbatim>\<open>printScoreboard\<close> that recounts solved problems and penalty.\<close>

definition board_step :: "Team \<Rightarrow> int \<times> int \<Rightarrow> string \<Rightarrow> int \<times> int" where
  "board_step t acc prob =
     (case problems t prob of
        None \<Rightarrow> acc
      | Some ps \<Rightarrow>
          if counted ps
          then (wrap32 (fst acc + 1),
                wrap32 (snd acc + wrap32 (solveTime ps + wrap32 (20 * wrongAttempts ps))))
          else acc)"

definition board_row :: "ICPCSystem \<Rightarrow> string \<times> int \<Rightarrow> row" where
  "board_row s p =
     (let t = team_at s (fst p);
          sp = foldl (board_step t) (0, 0) (problemList s)
      in (name t, snd p, fst sp, snd sp, map (cell_of t) (problemList s)))"

definition printScoreboard :: "ICPCSystem \<Rightarrow> event list" where
  "printScoreboard s = map (\<lambda>p. ScoreboardRow (board_row s p)) (calculateRanking s)"

section \<open>The operations of \<^verbatim>\<open>ICPCSystem\<close>\<close>

definition addTeam :: "string \<Rightarrow> ICPCSystem \<Rightarrow> event list \<times> ICPCSystem" where
  "addTeam n s =
     (if started s then ([AddFailStarted], s)
      else if teams s n \<noteq> None then ([AddFailDuplicated], s)
      else ([AddOk], s\<lparr>teams := (teams s)(n \<mapsto> TeamNew n), teamNames := teamNames s @ [n]\<rparr>))"

text \<open>
  \<^verbatim>\<open>start\<close>: \<^verbatim>\<open>problemList.reserve(problems)\<close> throws \<^verbatim>\<open>std::length_error\<close> for a negative
  count (the conversion to \<^verbatim>\<open>size_t\<close> exceeds \<^verbatim>\<open>max_size()\<close>), after \<^verbatim>\<open>started\<close>,
  \<^verbatim>\<open>durationTime\<close> and \<^verbatim>\<open>problemCount\<close> were written; nothing catches it. The identifier of
  problem \<open>i\<close> is the one-byte string \<^verbatim>\<open>'A' + i\<close>, the sum narrowed to a byte.
\<close>

definition start :: "int \<Rightarrow> int \<Rightarrow> ICPCSystem \<Rightarrow> error + event list \<times> ICPCSystem" where
  "start duration nproblems s =
     (if started s then Inr ([StartFail], s)
      else if nproblems < 0 then Inl LengthError
      else Inr ([StartOk],
             s\<lparr>started := True, durationTime := duration, problemCount := nproblems,
               problemList :=
                 problemList s @ map (\<lambda>i. [char_of (65 + i)]) [0..<nat nproblems]\<rparr>))"

text \<open>The two branches of \<^verbatim>\<open>submit\<close> after the ledger and the problem entry are in place.\<close>

definition apply_submission :: "bool \<Rightarrow> Submission \<Rightarrow> ProblemStatus \<Rightarrow> ProblemStatus" where
  "apply_submission frz sub ps =
     (if frz \<and> \<not> wasSolvedBeforeFreeze ps
      then ps\<lparr>frozenSubs := frozenSubs ps @ [sub]\<rparr>
      else if \<not> solved ps
      then (if status sub = ''Accepted''
            then ps\<lparr>solved := True, solveTime := time sub, wasSolvedBeforeFreeze := True\<rparr>
            else ps\<lparr>wrongAttempts := wrongAttempts ps + 1\<rparr>)
      else ps)"

definition submit :: "string \<Rightarrow> string \<Rightarrow> string \<Rightarrow> int \<Rightarrow> ICPCSystem \<Rightarrow> ICPCSystem" where
  "submit prob teamName stat tm s =
     (let sub = \<lparr>problem = prob, status = stat, time = tm\<rparr>;
          team = team_at s teamName;
          team1 = team\<lparr>submissions := submissions team @ [sub]\<rparr>;
          ps = apply_submission (frozen s) sub (problem_at team1 prob)
      in s\<lparr>teams := (teams s)(teamName \<mapsto> team1\<lparr>problems := (problems team1)(prob \<mapsto> ps)\<rparr>)\<rparr>)"

definition flush :: "bool \<Rightarrow> ICPCSystem \<Rightarrow> event list \<times> ICPCSystem" where
  "flush silent s =
     ((if silent then [] else [FlushInfo]), s\<lparr>lastRanking := calculateRanking s\<rparr>)"

definition freeze_problem :: "ProblemStatus \<Rightarrow> ProblemStatus" where
  "freeze_problem ps = (if solved ps then ps\<lparr>wasSolvedBeforeFreeze := True\<rparr> else ps)"

definition freeze_team :: "Team \<Rightarrow> Team" where
  "freeze_team t = t\<lparr>problems := (\<lambda>p. map_option freeze_problem (problems t p))\<rparr>"

definition freeze :: "ICPCSystem \<Rightarrow> event list \<times> ICPCSystem" where
  "freeze s =
     (if frozen s then ([FreezeFail], s)
      else ([FreezeOk],
            s\<lparr>frozen := True, teams := (\<lambda>k. map_option freeze_team (teams s k))\<rparr>))"

subsection \<open>Scroll\<close>

definition has_frozen :: "Team \<Rightarrow> string \<Rightarrow> bool" where
  "has_frozen t prob =
     (case problems t prob of None \<Rightarrow> False | Some ps \<Rightarrow> frozenSubs ps \<noteq> [])"

text \<open>
  The scan over \<^verbatim>\<open>lastRanking\<close> at the head of the loop; the accumulator is
  \<^verbatim>\<open>(hasFrozen, lowestTeam, lowestRank)\<close>. The inner loop over \<^verbatim>\<open>problemList\<close> stops at the
  first problem with hidden submissions, which is \<open>find\<close>.
\<close>

definition scan_step :: "ICPCSystem \<Rightarrow> bool \<times> string \<times> int \<Rightarrow> string \<times> int \<Rightarrow> bool \<times> string \<times> int" where
  "scan_step s acc p =
     (case find (has_frozen (team_at s (fst p))) (problemList s) of
        None \<Rightarrow> acc
      | Some prob \<Rightarrow>
          (True,
           if snd p > snd (snd acc) then fst p else fst (snd acc),
           if snd p > snd (snd acc) then snd p else snd (snd acc)))"

definition scan_frozen :: "ICPCSystem \<Rightarrow> bool \<times> string \<times> int" where
  "scan_frozen s = foldl (scan_step s) (False, [], 0) (lastRanking s)"

definition unfreeze_prob :: "Team \<Rightarrow> string list \<Rightarrow> string" where
  "unfreeze_prob t probs = (case find (has_frozen t) probs of None \<Rightarrow> [] | Some prob \<Rightarrow> prob)"

definition replay_sub :: "ProblemStatus \<Rightarrow> Submission \<Rightarrow> ProblemStatus" where
  "replay_sub ps sub =
     (if status sub = ''Accepted'' \<and> \<not> solved ps
      then ps\<lparr>solved := True, solveTime := time sub, wasSolvedBeforeFreeze := True\<rparr>
      else if status sub \<noteq> ''Accepted'' \<and> \<not> solved ps
      then ps\<lparr>wrongAttempts := wrongAttempts ps + 1\<rparr>
      else ps)"

definition replay :: "ProblemStatus \<Rightarrow> ProblemStatus" where
  "replay ps = (foldl replay_sub ps (frozenSubs ps))\<lparr>frozenSubs := []\<rparr>"

text \<open>Lines 264 to 286: the chosen queue is replayed and the ranking recomputed.\<close>

definition unfreeze :: "string \<Rightarrow> ICPCSystem \<Rightarrow> ICPCSystem" where
  "unfreeze lowestTeam s =
     (let t = team_at s lowestTeam;
          unfreezeProb = unfreeze_prob t (problemList s);
          ps = replay (problem_at t unfreezeProb);
          s1 = s\<lparr>teams := (teams s)(lowestTeam \<mapsto> t\<lparr>problems := (problems t)(unfreezeProb \<mapsto> ps)\<rparr>)\<rparr>
      in s1\<lparr>lastRanking := calculateRanking s1\<rparr>)"

definition rank_in :: "(string \<times> int) list \<Rightarrow> string \<Rightarrow> int" where
  "rank_in ranking n = (case find (\<lambda>p. fst p = n) ranking of None \<Rightarrow> 0 | Some p \<Rightarrow> snd p)"

definition team_ranked :: "(string \<times> int) list \<Rightarrow> int \<Rightarrow> string" where
  "team_ranked ranking r = (case find (\<lambda>p. snd p = r) ranking of None \<Rightarrow> [] | Some p \<Rightarrow> fst p)"

text \<open>Lines 285 to 308, on the state \<open>s\<close> that \<open>unfreeze\<close> left.\<close>

definition notify :: "string \<Rightarrow> int \<Rightarrow> ICPCSystem \<Rightarrow> event list" where
  "notify lowestTeam oldRank s =
     (let newRank = rank_in (lastRanking s) lowestTeam
      in if newRank < oldRank
         then (let info = getTeamRankInfo s lowestTeam;
                   replacedTeam = team_ranked (lastRanking s) (newRank + 1)
               in [RankChange lowestTeam replacedTeam (info_solved info) (info_penalty info)])
         else [])"

section \<open>Sorting and the ranking list\<close>

lemma mset_insert_by: "mset (insert_by lt x xs) = add_mset x (mset xs)"
  by (induction xs) auto

lemma mset_sort_by: "mset (sort_by lt xs) = mset xs"
  unfolding sort_by_def by (induction xs) (auto simp: mset_insert_by)

lemma set_sort_by: "set (sort_by lt xs) = set xs"
  using mset_sort_by [of lt xs] by (metis set_mset_mset)

lemma length_sort_by: "length (sort_by lt xs) = length xs"
  using mset_sort_by [of lt xs] by (metis size_mset)

lemma distinct_sort_by: "distinct (sort_by lt xs) = distinct xs"
  using mset_sort_by [of lt xs] by (metis distinct_count_atmost_1 set_mset_mset)

lemma mset_rank_indices: "mset (rank_indices s) = mset [0..<length (teamNames s)]"
  by (simp add: rank_indices_def Let_def mset_sort_by del: mset_upt)

lemma set_rank_indices: "set (rank_indices s) = {0..<length (teamNames s)}"
  by (simp add: rank_indices_def Let_def set_sort_by)

lemma length_rank_indices: "length (rank_indices s) = length (teamNames s)"
  by (simp add: rank_indices_def Let_def length_sort_by)

lemma distinct_rank_indices: "distinct (rank_indices s)"
  by (simp add: rank_indices_def Let_def distinct_sort_by)

lemma map_fst_calculateRanking:
  "map fst (calculateRanking s) = map ((!) (teamNames s)) (rank_indices s)"
  by (rule nth_equalityI) (simp_all add: calculateRanking_def Let_def)

lemma map_snd_calculateRanking:
  "map snd (calculateRanking s) = map (\<lambda>i. int i + 1) [0..<length (teamNames s)]"
  by (simp add: calculateRanking_def Let_def o_def length_rank_indices)

lemma mset_names_calculateRanking:
  "mset (map fst (calculateRanking s)) = mset (teamNames s)"
proof -
  have "mset (map fst (calculateRanking s)) = image_mset ((!) (teamNames s)) (mset (rank_indices s))"
    by (simp add: map_fst_calculateRanking)
  also have "\<dots> = mset (map ((!) (teamNames s)) [0..<length (teamNames s)])"
    by (simp add: mset_rank_indices del: mset_upt)
  finally show ?thesis by (simp add: map_nth)
qed

lemma set_names_calculateRanking: "fst ` set (calculateRanking s) = set (teamNames s)"
  using mset_names_calculateRanking [of s] by (metis set_map set_mset_mset)

lemma length_calculateRanking: "length (calculateRanking s) = length (teamNames s)"
  by (simp add: calculateRanking_def Let_def length_rank_indices)

lemma ranks_positive: "p \<in> set (calculateRanking s) \<Longrightarrow> 1 \<le> snd p"
  by (auto simp: calculateRanking_def Let_def)

section \<open>The scroll loop\<close>

text \<open>
  What the scan at the head of the loop finds, and the measure that makes the loop
  terminate: the number of queues with hidden submissions among the ranked teams and the
  listed problems, then whether the cached ranking holds a rank below 1 (it never does
  after the first recomputation).
\<close>

definition team_hidden :: "ICPCSystem \<Rightarrow> string \<Rightarrow> bool" where
  "team_hidden s n = list_ex (has_frozen (team_at s n)) (problemList s)"

definition pending_set :: "ICPCSystem \<Rightarrow> (string \<times> string) set" where
  "pending_set s =
     {(n, p). n \<in> set (teamNames s) \<union> fst ` set (lastRanking s) \<and> p \<in> set (problemList s)
        \<and> has_frozen (team_at s n) p}"

definition pending :: "ICPCSystem \<Rightarrow> nat" where
  "pending s = card (pending_set s)"

definition unranked :: "ICPCSystem \<Rightarrow> nat" where
  "unranked s = (if list_all (\<lambda>p. 1 \<le> snd p) (lastRanking s) then 0 else 1)"

lemma find_has_frozen_None:
  "(find (has_frozen t) ps = None) = (\<not> list_ex (has_frozen t) ps)"
  by (auto simp: find_None_iff list_ex_iff)

lemma finite_pending_set: "finite (pending_set s)"
proof -
  have "pending_set s \<subseteq> (set (teamNames s) \<union> fst ` set (lastRanking s)) \<times> set (problemList s)"
    by (auto simp: pending_set_def)
  then show ?thesis by (rule finite_subset) simp
qed

lemma scan_fold:
  assumes "foldl (scan_step s) (hf, lt, lr) rs = (hf', lt', lr')"
  shows "hf' = (hf \<or> (\<exists>p\<in>set rs. team_hidden s (fst p)))
       \<and> lr \<le> lr'
       \<and> (\<forall>p\<in>set rs. team_hidden s (fst p) \<longrightarrow> snd p \<le> lr')
       \<and> ((lt', lr') = (lt, lr) \<or> ((lt', lr') \<in> set rs \<and> team_hidden s lt' \<and> lr < lr'))"
  using assms
proof (induction rs arbitrary: hf lt lr)
  case Nil
  then show ?case by simp
next
  case (Cons p rs)
  show ?case
  proof (cases "team_hidden s (fst p)")
    case False
    then have "scan_step s (hf, lt, lr) p = (hf, lt, lr)"
      by (simp add: scan_step_def team_hidden_def find_has_frozen_None [symmetric])
    with Cons.prems have "foldl (scan_step s) (hf, lt, lr) rs = (hf', lt', lr')" by simp
    from Cons.IH [OF this] False show ?thesis by auto
  next
    case True
    then obtain prob where "find (has_frozen (team_at s (fst p))) (problemList s) = Some prob"
      using find_has_frozen_None [of "team_at s (fst p)" "problemList s"]
      by (auto simp: team_hidden_def)
    then have st: "scan_step s (hf, lt, lr) p =
        (True, if snd p > lr then fst p else lt, if snd p > lr then snd p else lr)"
      by (simp add: scan_step_def)
    show ?thesis
    proof (cases "snd p > lr")
      case gt: True
      with st Cons.prems have "foldl (scan_step s) (True, fst p, snd p) rs = (hf', lt', lr')" by simp
      from Cons.IH [OF this] True gt show ?thesis
        by (cases p) auto
    next
      case le: False
      with st Cons.prems have "foldl (scan_step s) (True, lt, lr) rs = (hf', lt', lr')" by simp
      from Cons.IH [OF this] True le show ?thesis by auto
    qed
  qed
qed

lemma scan_frozen_props:
  assumes "scan_frozen s = (hf, lt, lr)"
  shows "hf = (\<exists>p\<in>set (lastRanking s). team_hidden s (fst p))"
    and "0 \<le> lr"
    and "\<forall>p\<in>set (lastRanking s). team_hidden s (fst p) \<longrightarrow> snd p \<le> lr"
    and "(lt, lr) = ([], 0) \<or> ((lt, lr) \<in> set (lastRanking s) \<and> team_hidden s lt \<and> 0 < lr)"
  using scan_fold [OF assms [unfolded scan_frozen_def]] by auto

lemma teamNames_unfreeze [simp]: "teamNames (unfreeze lt s) = teamNames s"
  by (simp add: unfreeze_def Let_def)

lemma problemList_unfreeze [simp]: "problemList (unfreeze lt s) = problemList s"
  by (simp add: unfreeze_def Let_def)

lemma frozen_unfreeze [simp]: "frozen (unfreeze lt s) = frozen s"
  by (simp add: unfreeze_def Let_def)

lemma started_unfreeze [simp]: "started (unfreeze lt s) = started s"
  by (simp add: unfreeze_def Let_def)

lemma teams_unfreeze:
  "teams (unfreeze lt s) =
     (teams s)(lt \<mapsto> (team_at s lt)\<lparr>problems :=
        (problems (team_at s lt))(unfreeze_prob (team_at s lt) (problemList s) \<mapsto>
           replay (problem_at (team_at s lt) (unfreeze_prob (team_at s lt) (problemList s))))\<rparr>)"
  by (simp add: unfreeze_def Let_def)

lemma team_at_unfreeze_other: "n \<noteq> lt \<Longrightarrow> team_at (unfreeze lt s) n = team_at s n"
  by (simp add: team_at_def teams_unfreeze)

lemma team_at_unfreeze_same:
  "team_at (unfreeze lt s) lt =
     (team_at s lt)\<lparr>problems :=
        (problems (team_at s lt))(unfreeze_prob (team_at s lt) (problemList s) \<mapsto>
           replay (problem_at (team_at s lt) (unfreeze_prob (team_at s lt) (problemList s))))\<rparr>"
  by (simp add: team_at_def teams_unfreeze)

lemma getTeamRankInfo_lastRanking [simp]:
  "getTeamRankInfo (s\<lparr>lastRanking := r\<rparr>) = getTeamRankInfo s"
  by (rule ext) (simp add: getTeamRankInfo_def team_at_def)

lemma rank_indices_lastRanking [simp]:
  "rank_indices (s\<lparr>lastRanking := r\<rparr>) = rank_indices s"
  by (simp add: rank_indices_def)

lemma calculateRanking_lastRanking [simp]:
  "calculateRanking (s\<lparr>lastRanking := r\<rparr>) = calculateRanking s"
  by (simp add: calculateRanking_def)

lemma lastRanking_unfreeze:
  "lastRanking (unfreeze lt s) = calculateRanking (unfreeze lt s)"
  by (simp add: unfreeze_def Let_def)

lemma frozenSubs_replay [simp]: "frozenSubs (replay ps) = []"
  by (simp add: replay_def)

lemma has_frozen_unfreeze:
  "has_frozen (team_at (unfreeze lt s) n) p =
     (has_frozen (team_at s n) p \<and> (n, p) \<noteq> (lt, unfreeze_prob (team_at s lt) (problemList s)))"
  by (cases "n = lt") (auto simp: team_at_unfreeze_other team_at_unfreeze_same has_frozen_def)

lemma unfreeze_prob_hidden:
  "team_hidden s lt \<Longrightarrow>
     unfreeze_prob (team_at s lt) (problemList s) \<in> set (problemList s)
     \<and> has_frozen (team_at s lt) (unfreeze_prob (team_at s lt) (problemList s))"
proof -
  assume "team_hidden s lt"
  then obtain p where p: "find (has_frozen (team_at s lt)) (problemList s) = Some p"
    using find_has_frozen_None [of "team_at s lt" "problemList s"]
    by (auto simp: team_hidden_def)
  then have "p \<in> set (problemList s)" "has_frozen (team_at s lt) p"
    by (auto simp: find_Some_iff)
  with p show ?thesis by (simp add: unfreeze_prob_def)
qed

lemma pending_set_unfreeze_subset: "pending_set (unfreeze lt s) \<subseteq> pending_set s"
  by (auto simp: pending_set_def has_frozen_unfreeze lastRanking_unfreeze
                 set_names_calculateRanking)

lemma pending_unfreeze_le: "pending (unfreeze lt s) \<le> pending s"
  unfolding pending_def
  by (rule card_mono [OF finite_pending_set pending_set_unfreeze_subset])

lemma pending_unfreeze_less:
  assumes "(lt, lr) \<in> set (lastRanking s)" "team_hidden s lt"
  shows "pending (unfreeze lt s) < pending s"
proof -
  let ?p = "unfreeze_prob (team_at s lt) (problemList s)"
  from unfreeze_prob_hidden [OF assms(2)] assms(1)
  have "(lt, ?p) \<in> pending_set s" by (force simp: pending_set_def)
  moreover have "(lt, ?p) \<notin> pending_set (unfreeze lt s)"
    by (simp add: pending_set_def has_frozen_unfreeze)
  ultimately have "pending_set (unfreeze lt s) \<subset> pending_set s"
    using pending_set_unfreeze_subset [of lt s] by blast
  then show ?thesis
    unfolding pending_def by (rule psubset_card_mono [OF finite_pending_set])
qed

lemma unranked_unfreeze [simp]: "unranked (unfreeze lt s) = 0"
  by (auto simp: unranked_def list_all_iff lastRanking_unfreeze dest: ranks_positive)

lemma scroll_decreases:
  assumes "scan_frozen s = (True, lt, lr)"
  shows "(unfreeze lt s, s) \<in> measures [pending, unranked]"
proof -
  note P = scan_frozen_props [OF assms]
  from P(4) show ?thesis
  proof
    assume "(lt, lr) = ([], 0)"
    then have "lr = 0" by simp
    with P(1,3) obtain p where "p \<in> set (lastRanking s)" "snd p \<le> 0" by auto
    then have "\<not> list_all (\<lambda>p. 1 \<le> snd p) (lastRanking s)" by (force simp: list_all_iff)
    then have "unranked s = 1" by (simp add: unranked_def)
    with pending_unfreeze_le [of lt s] show ?thesis by auto
  next
    assume "(lt, lr) \<in> set (lastRanking s) \<and> team_hidden s lt \<and> 0 < lr"
    then show ?thesis using pending_unfreeze_less by auto
  qed
qed

lemma scroll_rec:
  assumes "(x, y) = scan_frozen s" "(xa, ya) = y" "\<not> \<not> x"
  shows "(unfreeze xa s, s) \<in> measures [pending, unranked]"
proof -
  from assms have "scan_frozen s = (True, xa, ya)" by (cases "scan_frozen s") auto
  then show ?thesis by (rule scroll_decreases)
qed

function scroll_loop :: "ICPCSystem \<Rightarrow> event list \<times> ICPCSystem" where
  "scroll_loop s =
     (case scan_frozen s of
        (hasFrozen, lowestTeam, lowestRank) \<Rightarrow>
          if \<not> hasFrozen then ([], s)
          else (notify lowestTeam lowestRank (unfreeze lowestTeam s)
                  @ fst (scroll_loop (unfreeze lowestTeam s)),
                snd (scroll_loop (unfreeze lowestTeam s))))"
  by pat_completeness auto
termination
  by (relation "measures [pending, unranked]") (simp, (rule scroll_rec; assumption)+)

function scroll_steps :: "ICPCSystem \<Rightarrow> nat" where
  "scroll_steps s =
     (case scan_frozen s of
        (hasFrozen, lowestTeam, lowestRank) \<Rightarrow>
          if \<not> hasFrozen then 0 else Suc (scroll_steps (unfreeze lowestTeam s)))"
  by pat_completeness auto
termination
  by (relation "measures [pending, unranked]") (simp, (rule scroll_rec; assumption)+)

definition scroll :: "ICPCSystem \<Rightarrow> event list \<times> ICPCSystem" where
  "scroll s =
     (if \<not> frozen s then ([ScrollFail], s)
      else (let s1 = snd (flush True s);
                r = scroll_loop s1
            in ([ScrollInfo] @ printScoreboard s1 @ fst r @ printScoreboard (snd r),
                (snd r)\<lparr>frozen := False\<rparr>)))"

subsection \<open>Queries\<close>

text \<open>
  The fallback of \<^verbatim>\<open>queryRanking\<close> sorts a copy of \<^verbatim>\<open>teamNames\<close> with \<^verbatim>\<open>operator<\<close> of
  \<^verbatim>\<open>std::string\<close> and reports the first index holding the name, counted from 1.
\<close>

definition alphabetical_rank :: "string list \<Rightarrow> string \<Rightarrow> int" where
  "alphabetical_rank names n =
     (let sortedNames = sort_by str_less names
      in case find (\<lambda>i. sortedNames ! i = n) [0..<length sortedNames] of
           None \<Rightarrow> 0
         | Some i \<Rightarrow> int i + 1)"

definition queryRanking :: "string \<Rightarrow> ICPCSystem \<Rightarrow> event list" where
  "queryRanking n s =
     (if teams s n = None then [QueryRankingFail]
      else [QueryRankingInfo]
           @ (if frozen s then [QueryRankingWarning] else [])
           @ [NowAtRanking n
                (if lastRanking s \<noteq> [] then rank_in (lastRanking s) n
                 else alphabetical_rank (teamNames s) n)])"

definition querySubmission :: "string \<Rightarrow> string \<Rightarrow> string \<Rightarrow> ICPCSystem \<Rightarrow> event list" where
  "querySubmission teamName prob stat s =
     (if teams s teamName = None then [QuerySubmissionFail]
      else [QuerySubmissionInfo]
           @ (case find (\<lambda>sub. (prob = ''ALL'' \<or> problem sub = prob)
                               \<and> (stat = ''ALL'' \<or> status sub = stat))
                     (rev (submissions (team_at s teamName))) of
                None \<Rightarrow> [NoSubmission]
              | Some sub \<Rightarrow> [FoundSubmission teamName (problem sub) (status sub) (time sub)]))"

section \<open>Command sequences\<close>

text \<open>
  One constructor per call that \<^verbatim>\<open>main\<close> makes on the system. The two arguments of
  \<^verbatim>\<open>start\<close> are 32-bit values, read as signed: the number of problems bounds every loop
  over \<^verbatim>\<open>problemList\<close>. \<open>step\<close> is one call;
  \<open>exec\<close> is the state that \<^verbatim>\<open>main\<close> holds when it stops reading: at the end of the
  input, after \<^verbatim>\<open>END\<close>, or at the command whose exception ends the process.
\<close>

datatype cmd =
    ADDTEAM string
  | START "32 word" "32 word"
  | SUBMIT string string string int
  | FLUSH
  | FREEZE
  | SCROLL
  | QUERY_RANKING string
  | QUERY_SUBMISSION string string string
  | END

fun step :: "cmd \<Rightarrow> ICPCSystem \<Rightarrow> error + event list \<times> ICPCSystem" where
  "step (ADDTEAM n) s = Inr (addTeam n s)"
| "step (START duration nproblems) s = start (sint duration) (sint nproblems) s"
| "step (SUBMIT prob teamName stat tm) s = Inr ([], submit prob teamName stat tm s)"
| "step FLUSH s = Inr (flush False s)"
| "step FREEZE s = Inr (freeze s)"
| "step SCROLL s = Inr (scroll s)"
| "step (QUERY_RANKING n) s = Inr (queryRanking n s, s)"
| "step (QUERY_SUBMISSION teamName prob stat) s = Inr (querySubmission teamName prob stat s, s)"
| "step END s = Inr ([EndInfo], s)"

fun exec :: "cmd list \<Rightarrow> ICPCSystem \<Rightarrow> ICPCSystem" where
  "exec [] s = s"
| "exec (END # cs) s = s"
| "exec (c # cs) s = (case step c s of Inl e \<Rightarrow> s | Inr r \<Rightarrow> exec cs (snd r))"

section \<open>The write path of a submission\<close>

lemma problem_at_submissions [simp]:
  "problem_at (t\<lparr>submissions := l\<rparr>) p = problem_at t p"
  by (simp add: problem_at_def)

lemma submit_team:
  "teams (submit prob teamName stat tm s) =
     (teams s)(teamName \<mapsto>
        (team_at s teamName)\<lparr>
          submissions := submissions (team_at s teamName)
                           @ [\<lparr>problem = prob, status = stat, time = tm\<rparr>],
          problems := (problems (team_at s teamName))(prob \<mapsto>
             apply_submission (frozen s) \<lparr>problem = prob, status = stat, time = tm\<rparr>
               (problem_at (team_at s teamName) prob))\<rparr>)"
  by (simp add: submit_def Let_def problem_at_def)

lemma submit_fields [simp]:
  "teamNames (submit prob teamName stat tm s) = teamNames s"
  "started (submit prob teamName stat tm s) = started s"
  "frozen (submit prob teamName stat tm s) = frozen s"
  "durationTime (submit prob teamName stat tm s) = durationTime s"
  "problemCount (submit prob teamName stat tm s) = problemCount s"
  "problemList (submit prob teamName stat tm s) = problemList s"
  "lastRanking (submit prob teamName stat tm s) = lastRanking s"
  by (simp_all add: submit_def Let_def)

text \<open>
  Claim C2. Every call of \<^verbatim>\<open>submit\<close> appends the submission to the team's ledger. If
  the board is not frozen, or the problem's \<open>wasSolvedBeforeFreeze\<close> is set, the
  submission applies and the hidden queue is untouched: on an unsolved problem an
  \<^verbatim>\<open>Accepted\<close> sets \<open>solved\<close>, \<open>solveTime\<close> and \<open>wasSolvedBeforeFreeze\<close>, any other
  verdict adds one to \<open>wrongAttempts\<close>; on a solved problem the ledger is the only
  change of the whole state. Otherwise (frozen, flag unset) the submission is appended to
  \<open>frozenSubs\<close> and \<open>solved\<close> and \<open>wrongAttempts\<close> keep their values. Nothing else
  changes: the other teams, the team's other problems, the list of registered names, the
  flags and the cached ranking. Here \<open>ps\<close> is the problem's state before the call (the
  default-constructed one when the entry is new) and \<open>ps'\<close> the state after it.
\<close>

theorem submit_write_path:
  fixes s :: ICPCSystem and prob teamName stat :: string and tm :: int
  defines "sub \<equiv> \<lparr>problem = prob, status = stat, time = tm\<rparr>"
    and "t \<equiv> team_at s teamName"
    and "s' \<equiv> submit prob teamName stat tm s"
  defines "ps \<equiv> problem_at t prob"
    and "t' \<equiv> team_at s' teamName"
  defines "ps' \<equiv> problem_at t' prob"
  shows "teams s' teamName = Some t' \<and> submissions t' = submissions t @ [sub]
       \<and> problems t' prob = Some ps'
       \<and> (\<not> frozen s \<or> wasSolvedBeforeFreeze ps \<longrightarrow>
            frozenSubs ps' = frozenSubs ps
            \<and> (\<not> solved ps \<and> stat = ''Accepted'' \<longrightarrow>
                 ps' = ps\<lparr>solved := True, solveTime := tm, wasSolvedBeforeFreeze := True\<rparr>)
            \<and> (\<not> solved ps \<and> stat \<noteq> ''Accepted'' \<longrightarrow>
                 ps' = ps\<lparr>wrongAttempts := wrongAttempts ps + 1\<rparr>)
            \<and> (solved ps \<longrightarrow>
                 s' = s\<lparr>teams := (teams s)(teamName \<mapsto> t\<lparr>submissions := submissions t @ [sub]\<rparr>)\<rparr>))
       \<and> (frozen s \<and> \<not> wasSolvedBeforeFreeze ps \<longrightarrow>
            ps' = ps\<lparr>frozenSubs := frozenSubs ps @ [sub]\<rparr>
            \<and> solved ps' = solved ps \<and> wrongAttempts ps' = wrongAttempts ps)
       \<and> (\<forall>k. k \<noteq> teamName \<longrightarrow> teams s' k = teams s k)
       \<and> (\<forall>p. p \<noteq> prob \<longrightarrow> problems t' p = problems t p)
       \<and> name t' = name t
       \<and> teamNames s' = teamNames s \<and> problemList s' = problemList s
       \<and> frozen s' = frozen s \<and> started s' = started s \<and> lastRanking s' = lastRanking s"
proof -
  have T: "teams s' teamName = Some t'"
    and t': "t' = t\<lparr>submissions := submissions t @ [sub],
                   problems := (problems t)(prob \<mapsto> apply_submission (frozen s) sub ps)\<rparr>"
    by (simp_all add: t'_def s'_def t_def sub_def ps_def team_at_def submit_team)
  have ps': "ps' = apply_submission (frozen s) sub ps"
    by (simp add: ps'_def t' problem_at_def)
  have solved_case: "s' = s\<lparr>teams := (teams s)(teamName \<mapsto> t\<lparr>submissions := submissions t @ [sub]\<rparr>)\<rparr>"
    if "\<not> frozen s \<or> wasSolvedBeforeFreeze ps" "solved ps"
  proof -
    from that have ap: "apply_submission (frozen s) sub ps = ps"
      by (auto simp: apply_submission_def)
    from that(2) have "problems t prob = Some ps"
      by (auto simp: ps_def problem_at_def ProblemStatus0_def split: option.splits)
    then have "(problems t)(prob \<mapsto> ps) = problems t" by (auto simp: fun_eq_iff)
    then have "t' = t\<lparr>submissions := submissions t @ [sub]\<rparr>"
      by (simp add: t' ap)
    moreover have "s' = s\<lparr>teams := (teams s)(teamName \<mapsto> t')\<rparr>"
      by (simp add: s'_def submit_def Let_def t' t_def sub_def ps_def)
    ultimately show ?thesis by simp
  qed
  show ?thesis
    using T solved_case
    by (auto simp: t' ps' apply_submission_def sub_def s'_def submit_team problem_at_def)
qed


text \<open>The equations that evaluate a run on concrete commands.\<close>

lemmas run_simps =
  ICPCSystem0_def addTeam_def start_def submit_def freeze_def flush_def
  team_at_def problem_at_def TeamNew_def ProblemStatus0_def apply_submission_def
  freeze_team_def freeze_problem_def Let_def

theorem submit_write_path_witness:
  "frozen (exec [ADDTEAM ''t'', START 300 2, FREEZE] ICPCSystem0)
   \<and> \<not> wasSolvedBeforeFreeze
         (problem_at (team_at (exec [ADDTEAM ''t'', START 300 2, FREEZE] ICPCSystem0) ''t'') ''A'')
   \<and> problem_at (team_at (submit ''A'' ''t'' ''Accepted'' 250
         (exec [ADDTEAM ''t'', START 300 2, FREEZE] ICPCSystem0)) ''t'') ''A''
       = \<lparr>solved = False, solveTime = 0, wrongAttempts = 0,
          frozenSubs = [\<lparr>problem = ''A'', status = ''Accepted'', time = 250\<rparr>],
          wasSolvedBeforeFreeze = False\<rparr>
   \<and> wasSolvedBeforeFreeze
         (problem_at (team_at (exec [ADDTEAM ''t'', START 300 2,
            SUBMIT ''A'' ''t'' ''Accepted'' 10, FREEZE] ICPCSystem0) ''t'') ''A'')
   \<and> problem_at (team_at (submit ''A'' ''t'' ''Wrong_Answer'' 250
         (exec [ADDTEAM ''t'', START 300 2, SUBMIT ''A'' ''t'' ''Accepted'' 10, FREEZE]
            ICPCSystem0)) ''t'') ''A''
       = \<lparr>solved = True, solveTime = 10, wrongAttempts = 0, frozenSubs = [],
          wasSolvedBeforeFreeze = True\<rparr>
   \<and> problem_at (team_at (submit ''A'' ''t'' ''Wrong_Answer'' 5
         (exec [ADDTEAM ''t'', START 300 2] ICPCSystem0)) ''t'') ''A''
       = \<lparr>solved = False, solveTime = 0, wrongAttempts = 1, frozenSubs = [],
          wasSolvedBeforeFreeze = False\<rparr>"
  using submit_write_path [where prob = "''A''" and teamName = "''t''" and stat = "''Accepted''"
          and tm = 250 and s = "exec [ADDTEAM ''t'', START 300 2, FREEZE] ICPCSystem0"]
        submit_write_path [where prob = "''A''" and teamName = "''t''" and stat = "''Wrong_Answer''"
          and tm = 250
          and s = "exec [ADDTEAM ''t'', START 300 2, SUBMIT ''A'' ''t'' ''Accepted'' 10, FREEZE]
                     ICPCSystem0"]
        submit_write_path [where prob = "''A''" and teamName = "''t''" and stat = "''Wrong_Answer''"
          and tm = 5 and s = "exec [ADDTEAM ''t'', START 300 2] ICPCSystem0"]
  by (simp add: run_simps)

section \<open>The ranking does not read the hidden queues\<close>

text \<open>
  The fields of a team-problem entry that the scoreboard shows; a missing entry reads as
  the default-constructed one.
\<close>

definition visible :: "Team \<Rightarrow> string \<Rightarrow> bool \<times> int \<times> int \<times> bool" where
  "visible t p =
     (let ps = problem_at t p
      in (solved ps, solveTime ps, wrongAttempts ps, wasSolvedBeforeFreeze ps))"

lemma rank_step_by_visible:
  "rank_step t info p =
     (case visible t p of
        (sv, tm, wr, fl) \<Rightarrow>
          if sv \<and> fl
          then info\<lparr>info_solved := wrap32 (info_solved info + 1),
                    info_penalty := wrap32 (info_penalty info + wrap32 (tm + wrap32 (20 * wr))),
                    info_times := info_times info @ [tm]\<rparr>
          else info)"
  by (simp add: rank_step_def visible_def problem_at_def counted_def ProblemStatus0_def
           split: option.splits)

lemma rank_step_visible:
  assumes "visible t p = visible t' p"
  shows "rank_step t info p = rank_step t' info p"
  by (simp only: rank_step_by_visible assms)

lemma foldl_rank_step_visible:
  assumes "\<forall>p\<in>set ps. visible t p = visible t' p"
  shows "foldl (rank_step t) info ps = foldl (rank_step t') info ps"
  using assms
  by (induction ps arbitrary: info)
     (simp_all add: rank_step_visible [where t = t and t' = t'])

lemma getTeamRankInfo_visible:
  assumes "problemList s = problemList s'"
    and "\<forall>p\<in>set (problemList s). visible (team_at s n) p = visible (team_at s' n) p"
  shows "getTeamRankInfo s n = getTeamRankInfo s' n"
  using foldl_rank_step_visible [OF assms(2)] assms(1)
  by (simp add: getTeamRankInfo_def)

text \<open>
  Claim C6. Two states with the same registered teams and the same problem list, whose
  entries agree on \<open>solved\<close>, \<open>solveTime\<close>, \<open>wrongAttempts\<close> and \<open>wasSolvedBeforeFreeze\<close> for
  every registered team and listed problem, get the same ranking from
  \<^verbatim>\<open>calculateRanking\<close> and the same solved count, penalty and solve times from
  \<^verbatim>\<open>getTeamRankInfo\<close>, whatever their \<open>frozenSubs\<close> queues (and their ledgers and flags)
  hold.
\<close>

theorem ranking_ignores_frozenSubs:
  assumes "teamNames s = teamNames s'"
    and "problemList s = problemList s'"
    and "\<forall>n\<in>set (teamNames s). \<forall>p\<in>set (problemList s).
           visible (team_at s n) p = visible (team_at s' n) p"
  shows "calculateRanking s = calculateRanking s'
       \<and> (\<forall>n\<in>set (teamNames s). getTeamRankInfo s n = getTeamRankInfo s' n)"
proof -
  have I: "\<forall>n\<in>set (teamNames s). getTeamRankInfo s n = getTeamRankInfo s' n"
    using assms(2,3) by (auto intro: getTeamRankInfo_visible)
  then have M: "map (getTeamRankInfo s) (teamNames s') = map (getTeamRankInfo s') (teamNames s')"
    using assms(1) by simp
  have R: "rank_indices s = rank_indices s'"
    unfolding rank_indices_def assms(1) M ..
  have "calculateRanking s = calculateRanking s'"
    unfolding calculateRanking_def R assms(1) ..
  with I show ?thesis by simp
qed

theorem ranking_ignores_frozenSubs_witness:
  "calculateRanking
     (exec [ADDTEAM ''t'', ADDTEAM ''u'', START 300 1, SUBMIT ''A'' ''u'' ''Accepted'' 9, FREEZE,
            SUBMIT ''A'' ''t'' ''Accepted'' 250] ICPCSystem0)
   = calculateRanking
     (exec [ADDTEAM ''t'', ADDTEAM ''u'', START 300 1, SUBMIT ''A'' ''u'' ''Accepted'' 9, FREEZE,
            SUBMIT ''A'' ''t'' ''Wrong_Answer'' 251, SUBMIT ''A'' ''t'' ''Wrong_Answer'' 252]
        ICPCSystem0)
   \<and> frozenSubs (problem_at (team_at
       (exec [ADDTEAM ''t'', ADDTEAM ''u'', START 300 1, SUBMIT ''A'' ''u'' ''Accepted'' 9, FREEZE,
              SUBMIT ''A'' ''t'' ''Accepted'' 250] ICPCSystem0) ''t'') ''A'')
     \<noteq> frozenSubs (problem_at (team_at
       (exec [ADDTEAM ''t'', ADDTEAM ''u'', START 300 1, SUBMIT ''A'' ''u'' ''Accepted'' 9, FREEZE,
            SUBMIT ''A'' ''t'' ''Wrong_Answer'' 251, SUBMIT ''A'' ''t'' ''Wrong_Answer'' 252]
          ICPCSystem0) ''t'') ''A'')"
proof -
  let ?s = "exec [ADDTEAM ''t'', ADDTEAM ''u'', START 300 1, SUBMIT ''A'' ''u'' ''Accepted'' 9, FREEZE,
            SUBMIT ''A'' ''t'' ''Accepted'' 250] ICPCSystem0"
  let ?s' = "exec [ADDTEAM ''t'', ADDTEAM ''u'', START 300 1, SUBMIT ''A'' ''u'' ''Accepted'' 9, FREEZE,
            SUBMIT ''A'' ''t'' ''Wrong_Answer'' 251, SUBMIT ''A'' ''t'' ''Wrong_Answer'' 252]
        ICPCSystem0"
  have 1: "teamNames ?s = teamNames ?s'" by (simp add: run_simps)
  have 2: "problemList ?s = problemList ?s'" by (simp add: run_simps)
  have 3: "\<forall>n\<in>set (teamNames ?s). \<forall>p\<in>set (problemList ?s).
             visible (team_at ?s n) p = visible (team_at ?s' n) p"
    by (simp add: run_simps visible_def)
  have 4: "frozenSubs (problem_at (team_at ?s ''t'') ''A'')
            \<noteq> frozenSubs (problem_at (team_at ?s' ''t'') ''A'')"
    by (simp add: run_simps)
  from ranking_ignores_frozenSubs [OF 1 2 3] 4 show ?thesis by simp
qed

section \<open>Invariants of the reachable states\<close>

declare scroll_loop.simps [simp del] scroll_steps.simps [simp del]

lemma scroll_loop_preserves:
  assumes step: "\<And>s lt. P s \<Longrightarrow> P (unfreeze lt s)"
    and "P s"
  shows "P (snd (scroll_loop s))"
  using \<open>P s\<close>
proof (induction s rule: scroll_loop.induct)
  case (1 s)
  obtain hf lt lr where sc: "scan_frozen s = (hf, lt, lr)" by (cases "scan_frozen s")
  show ?case
  proof (cases hf)
    case False
    with sc "1.prems" show ?thesis by (simp add: scroll_loop.simps [of s])
  next
    case True
    have "P (snd (scroll_loop (unfreeze lt s)))"
      using "1.IH"(2) [of hf "(lt, lr)" lt lr] sc True step [OF "1.prems"] by simp
    with sc True show ?thesis by (simp add: scroll_loop.simps [of s])
  qed
qed

lemma scroll_state:
  "snd (scroll s) =
     (if \<not> frozen s then s
      else (snd (scroll_loop (s\<lparr>lastRanking := calculateRanking s\<rparr>)))\<lparr>frozen := False\<rparr>)"
  by (simp add: scroll_def flush_def Let_def)

lemma exec_induct:
  assumes "P s0"
    and "\<And>c s r. P s \<Longrightarrow> step c s = Inr r \<Longrightarrow> P (snd r)"
  shows "P (exec cs s0)"
  using assms(1)
proof (induction cs arbitrary: s0)
  case Nil
  then show ?case by simp
next
  case (Cons c cs)
  show ?case
  proof (cases "c = END")
    case True
    with Cons.prems show ?thesis by simp
  next
    case False
    then have E: "exec (c # cs) s0 = (case step c s0 of Inl e \<Rightarrow> s0 | Inr r \<Rightarrow> exec cs (snd r))"
      by (cases c) simp_all
    show ?thesis
    proof (cases "step c s0")
      case (Inl e)
      with E Cons.prems show ?thesis by simp
    next
      case (Inr r)
      with E Cons.IH [OF assms(2) [OF Cons.prems Inr]] show ?thesis by simp
    qed
  qed
qed

text \<open>
  An invariant of the system is a predicate that every operation keeps; it then holds
  after any command sequence.
\<close>

lemma step_cases:
  assumes "step c s = Inr r"
    and "\<And>n. P (snd (addTeam n s))"
    and "\<And>d n. \<not> started s \<Longrightarrow> 0 \<le> n \<Longrightarrow> n < 2147483648 \<Longrightarrow>
           P (s\<lparr>started := True, durationTime := d, problemCount := n,
                problemList := problemList s @ map (\<lambda>i. [char_of (65 + i)]) [0..<nat n]\<rparr>)"
    and "\<And>prob teamName stat tm. P (submit prob teamName stat tm s)"
    and "P (snd (flush False s))"
    and "P (snd (freeze s))"
    and "P (snd (scroll s))"
    and "P s"
  shows "P (snd r)"
proof (cases c)
  case (START d n)
  have "sint n < 2147483648" using sint_lt [of n] by simp
  with START assms(1,3,8) show ?thesis
    by (auto simp: start_def split: if_splits)
qed (use assms in auto)

subsection \<open>Registered teams are stored under their own name\<close>

definition registered :: "ICPCSystem \<Rightarrow> bool" where
  "registered s =
     (distinct (teamNames s)
      \<and> list_all (\<lambda>n. case teams s n of None \<Rightarrow> False | Some t \<Rightarrow> name t = n) (teamNames s)
      \<and> list_all (\<lambda>p. fst p \<in> set (teamNames s)) (lastRanking s))"

lemma registeredD:
  assumes "registered s" "n \<in> set (teamNames s)"
  shows "teams s n = Some (team_at s n)" "name (team_at s n) = n"
  using assms by (auto simp: registered_def list_all_iff team_at_def split: option.splits)

lemma registered_initial: "registered ICPCSystem0"
  by (simp add: registered_def ICPCSystem0_def)

lemma registered_addTeam: "registered s \<Longrightarrow> registered (snd (addTeam n s))"
  by (auto simp: registered_def addTeam_def list_all_iff TeamNew_def split: option.splits)

lemma registered_submit: "registered s \<Longrightarrow> registered (submit prob teamName stat tm s)"
  by (auto simp: registered_def submit_team list_all_iff team_at_def split: option.splits)

lemma registered_flush: "registered s \<Longrightarrow> registered (snd (flush silent s))"
  using set_names_calculateRanking [of s]
  by (auto simp: registered_def flush_def list_all_iff)

lemma registered_freeze: "registered s \<Longrightarrow> registered (snd (freeze s))"
  by (auto simp: registered_def freeze_def list_all_iff freeze_team_def split: option.splits)

lemma registered_unfreeze: "registered s \<Longrightarrow> registered (unfreeze lt s)"
  using set_names_calculateRanking [of "unfreeze lt s"]
  by (auto simp: registered_def list_all_iff lastRanking_unfreeze teams_unfreeze team_at_def
           split: option.splits)

lemma registered_frozen_update: "registered (s\<lparr>frozen := b\<rparr>) = registered s"
  by (simp add: registered_def)

lemma registered_scroll: "registered s \<Longrightarrow> registered (snd (scroll s))"
  unfolding scroll_state
  using scroll_loop_preserves [of registered, OF registered_unfreeze
          registered_flush [of s True, unfolded flush_def snd_conv]]
  by (simp add: registered_frozen_update)

lemma registered_step:
  assumes "registered s" "step c s = Inr r"
  shows "registered (snd r)"
  using assms(2)
proof (rule step_cases)
  fix d n
  show "registered (s\<lparr>started := True, durationTime := d, problemCount := n,
          problemList := problemList s @ map (\<lambda>i. [char_of (65 + i)]) [0..<nat n]\<rparr>)"
    using assms(1) by (simp add: registered_def)
qed (use assms(1) in \<open>simp_all add: registered_addTeam registered_submit registered_flush
       registered_freeze registered_scroll\<close>)

lemma reach_registered: "registered (exec cs ICPCSystem0)"
  by (rule exec_induct [OF registered_initial registered_step])

subsection \<open>The two solved flags\<close>

definition flags_agree :: "ICPCSystem \<Rightarrow> bool" where
  "flags_agree s =
     (\<forall>k t p ps. teams s k = Some t \<longrightarrow> problems t p = Some ps \<longrightarrow>
        solved ps = wasSolvedBeforeFreeze ps)"

lemma replay_sub_flags:
  "solved ps = wasSolvedBeforeFreeze ps \<Longrightarrow>
     solved (replay_sub ps sub) = wasSolvedBeforeFreeze (replay_sub ps sub)"
  by (simp add: replay_sub_def)

lemma foldl_replay_sub_flags:
  "solved ps = wasSolvedBeforeFreeze ps \<Longrightarrow>
     solved (foldl replay_sub ps subs) = wasSolvedBeforeFreeze (foldl replay_sub ps subs)"
  by (induction subs arbitrary: ps) (simp_all add: replay_sub_flags)

lemma replay_flags:
  "solved ps = wasSolvedBeforeFreeze ps \<Longrightarrow>
     solved (replay ps) = wasSolvedBeforeFreeze (replay ps)"
  by (simp add: replay_def foldl_replay_sub_flags)

lemma apply_submission_flags:
  "solved ps = wasSolvedBeforeFreeze ps \<Longrightarrow>
     solved (apply_submission frz sub ps) = wasSolvedBeforeFreeze (apply_submission frz sub ps)"
  by (simp add: apply_submission_def)

lemma problem_at_flags:
  "flags_agree s \<Longrightarrow>
     solved (problem_at (team_at s k) p) = wasSolvedBeforeFreeze (problem_at (team_at s k) p)"
  by (auto simp: flags_agree_def problem_at_def team_at_def ProblemStatus0_def TeamNew_def
           split: option.splits)

lemma flags_agree_initial: "flags_agree ICPCSystem0"
  by (simp add: flags_agree_def ICPCSystem0_def)

lemma flags_agree_addTeam: "flags_agree s \<Longrightarrow> flags_agree (snd (addTeam n s))"
  by (auto simp: flags_agree_def addTeam_def TeamNew_def split: if_splits)

lemma flags_agree_submit:
  assumes "flags_agree s"
  shows "flags_agree (submit prob teamName stat tm s)"
  unfolding flags_agree_def
proof (intro allI impI)
  fix k t p ps
  assume T: "teams (submit prob teamName stat tm s) k = Some t" and P: "problems t p = Some ps"
  show "solved ps = wasSolvedBeforeFreeze ps"
  proof (cases "k = teamName \<and> p = prob")
    case True
    with T P have "ps = apply_submission (frozen s) \<lparr>problem = prob, status = stat, time = tm\<rparr>
                          (problem_at (team_at s teamName) prob)"
      by (auto simp: submit_team)
    then show ?thesis
      using apply_submission_flags [OF problem_at_flags [OF assms]] by simp
  next
    case False
    with T P have "problems (team_at s k) p = Some ps"
      by (auto simp: submit_team team_at_def split: if_splits)
    then have "problem_at (team_at s k) p = ps" by (simp add: problem_at_def)
    with problem_at_flags [OF assms, of k p] show ?thesis by simp
  qed
qed

lemma flags_agree_freeze: "flags_agree s \<Longrightarrow> flags_agree (snd (freeze s))"
  by (auto simp: flags_agree_def freeze_def freeze_team_def freeze_problem_def split: if_splits)

lemma flags_agree_unfreeze:
  assumes "flags_agree s"
  shows "flags_agree (unfreeze lt s)"
  unfolding flags_agree_def
proof (intro allI impI)
  fix k t p ps
  assume T: "teams (unfreeze lt s) k = Some t" and P: "problems t p = Some ps"
  show "solved ps = wasSolvedBeforeFreeze ps"
  proof (cases "k = lt \<and> p = unfreeze_prob (team_at s lt) (problemList s)")
    case True
    with T P have "ps = replay (problem_at (team_at s lt) p)"
      by (auto simp: teams_unfreeze)
    then show ?thesis
      using replay_flags [OF problem_at_flags [OF assms]] by simp
  next
    case False
    with T P have "problems (team_at s k) p = Some ps"
      by (auto simp: teams_unfreeze team_at_def split: if_splits)
    then have "problem_at (team_at s k) p = ps" by (simp add: problem_at_def)
    with problem_at_flags [OF assms, of k p] show ?thesis by simp
  qed
qed

lemma flags_agree_frozen_update: "flags_agree (s\<lparr>frozen := b\<rparr>) = flags_agree s"
  by (simp add: flags_agree_def)

lemma flags_agree_lastRanking_update: "flags_agree (s\<lparr>lastRanking := r\<rparr>) = flags_agree s"
  by (simp add: flags_agree_def)

lemma flags_agree_scroll: "flags_agree s \<Longrightarrow> flags_agree (snd (scroll s))"
  unfolding scroll_state
  using scroll_loop_preserves [of flags_agree "s\<lparr>lastRanking := calculateRanking s\<rparr>",
          OF flags_agree_unfreeze]
  by (simp add: flags_agree_frozen_update flags_agree_lastRanking_update)

lemma flags_agree_step:
  assumes "flags_agree s" "step c s = Inr r"
  shows "flags_agree (snd r)"
  using assms(2)
proof (rule step_cases)
  fix d n
  show "flags_agree (s\<lparr>started := True, durationTime := d, problemCount := n,
          problemList := problemList s @ map (\<lambda>i. [char_of (65 + i)]) [0..<nat n]\<rparr>)"
    using assms(1) by (simp add: flags_agree_def)
next
  show "flags_agree (snd (flush False s))"
    using assms(1) by (simp add: flush_def flags_agree_lastRanking_update)
qed (use assms(1) in \<open>simp_all add: flags_agree_addTeam flags_agree_submit
       flags_agree_freeze flags_agree_scroll\<close>)

lemma reach_flags_agree: "flags_agree (exec cs ICPCSystem0)"
  by (rule exec_induct [OF flags_agree_initial flags_agree_step])

lemma freeze_problem_agree:
  "solved ps = wasSolvedBeforeFreeze ps \<Longrightarrow> freeze_problem ps = ps"
  by (simp add: freeze_problem_def)

lemma freeze_team_agree:
  assumes "\<forall>p ps. problems t p = Some ps \<longrightarrow> solved ps = wasSolvedBeforeFreeze ps"
  shows "freeze_team t = t"
proof -
  have "(\<lambda>p. map_option freeze_problem (problems t p)) = problems t"
  proof
    fix p
    show "map_option freeze_problem (problems t p) = problems t p"
      using assms by (cases "problems t p") (simp_all add: freeze_problem_agree)
  qed
  then show ?thesis by (simp add: freeze_team_def)
qed

lemma freeze_teams_agree:
  assumes "flags_agree s"
  shows "(\<lambda>k. map_option freeze_team (teams s k)) = teams s"
proof
  fix k
  show "map_option freeze_team (teams s k) = teams s k"
  proof (cases "teams s k")
    case None
    then show ?thesis by simp
  next
    case (Some t)
    with assms have "\<forall>p ps. problems t p = Some ps \<longrightarrow> solved ps = wasSolvedBeforeFreeze ps"
      by (auto simp: flags_agree_def)
    with Some show ?thesis by (simp add: freeze_team_agree)
  qed
qed

text \<open>
  Claim C9. After any command sequence, every stored team-problem entry has
  \<open>solved = wasSolvedBeforeFreeze\<close>. Hence the ranking condition
  \<^verbatim>\<open>ps.solved && ps.wasSolvedBeforeFreeze\<close> (\<open>counted\<close>) is \<open>solved\<close> alone, the body of the
  loop in \<^verbatim>\<open>freeze\<close> (\<open>freeze_problem\<close>) changes no entry, and a successful \<^verbatim>\<open>freeze\<close> only sets
  the \<open>frozen\<close> flag.
\<close>

theorem solved_flags_coincide:
  fixes cs :: "cmd list"
  defines "s \<equiv> exec cs ICPCSystem0"
  shows "(\<forall>k t p ps. teams s k = Some t \<longrightarrow> problems t p = Some ps \<longrightarrow>
            solved ps = wasSolvedBeforeFreeze ps \<and> counted ps = solved ps
            \<and> freeze_problem ps = ps)
       \<and> snd (freeze s) = (if frozen s then s else s\<lparr>frozen := True\<rparr>)"
proof -
  have F: "flags_agree s" unfolding s_def by (rule reach_flags_agree)
  then have "\<forall>k t p ps. teams s k = Some t \<longrightarrow> problems t p = Some ps \<longrightarrow>
            solved ps = wasSolvedBeforeFreeze ps \<and> counted ps = solved ps
            \<and> freeze_problem ps = ps"
    by (auto simp: flags_agree_def counted_def freeze_problem_agree)
  moreover have "snd (freeze s) = (if frozen s then s else s\<lparr>frozen := True\<rparr>)"
    by (simp add: freeze_def freeze_teams_agree [OF F])
  ultimately show ?thesis by simp
qed

theorem solved_flags_coincide_witness:
  "teams (exec [ADDTEAM ''t'', START 300 1, SUBMIT ''A'' ''t'' ''Accepted'' 10] ICPCSystem0) ''t''
     = Some (team_at
         (exec [ADDTEAM ''t'', START 300 1, SUBMIT ''A'' ''t'' ''Accepted'' 10] ICPCSystem0) ''t'')
   \<and> problems (team_at
         (exec [ADDTEAM ''t'', START 300 1, SUBMIT ''A'' ''t'' ''Accepted'' 10] ICPCSystem0) ''t'')
        ''A''
     = Some \<lparr>solved = True, solveTime = 10, wrongAttempts = 0, frozenSubs = [],
             wasSolvedBeforeFreeze = True\<rparr>
   \<and> counted \<lparr>solved = True, solveTime = 10, wrongAttempts = 0, frozenSubs = [],
             wasSolvedBeforeFreeze = True\<rparr>
   \<and> freeze_problem \<lparr>solved = True, solveTime = 10, wrongAttempts = 0, frozenSubs = [],
             wasSolvedBeforeFreeze = True\<rparr>
      = \<lparr>solved = True, solveTime = 10, wrongAttempts = 0, frozenSubs = [],
             wasSolvedBeforeFreeze = True\<rparr>
   \<and> \<not> frozen (exec [ADDTEAM ''t'', START 300 1, SUBMIT ''A'' ''t'' ''Accepted'' 10] ICPCSystem0)
   \<and> snd (freeze (exec [ADDTEAM ''t'', START 300 1, SUBMIT ''A'' ''t'' ''Accepted'' 10] ICPCSystem0))
      = (exec [ADDTEAM ''t'', START 300 1, SUBMIT ''A'' ''t'' ''Accepted'' 10] ICPCSystem0)
          \<lparr>frozen := True\<rparr>"
proof -
  let ?s = "exec [ADDTEAM ''t'', START 300 1, SUBMIT ''A'' ''t'' ''Accepted'' 10] ICPCSystem0"
  let ?ps = "\<lparr>solved = True, solveTime = 10, wrongAttempts = 0, frozenSubs = [],
             wasSolvedBeforeFreeze = True\<rparr>"
  have T: "teams ?s ''t'' = Some (team_at ?s ''t'')" by (simp add: run_simps)
  have P: "problems (team_at ?s ''t'') ''A'' = Some ?ps" by (simp add: run_simps)
  have N: "\<not> frozen ?s" by (simp add: run_simps)
  from solved_flags_coincide [of "[ADDTEAM ''t'', START 300 1, SUBMIT ''A'' ''t'' ''Accepted'' 10]"]
  have "counted ?ps = solved ?ps \<and> freeze_problem ?ps = ?ps"
    and "snd (freeze ?s) = ?s\<lparr>frozen := True\<rparr>"
    using T P N by (blast, simp)
  with T P N show ?thesis by simp
qed

section \<open>Teams created by a submission\<close>

definition unlisted :: "string \<Rightarrow> ICPCSystem \<Rightarrow> bool" where
  "unlisted n s =
     (registered s \<and> teams s n \<noteq> None \<and> n \<notin> set (teamNames s))"

lemma unlisted_addTeam: "unlisted n s \<Longrightarrow> unlisted n (snd (addTeam m s))"
  using registered_addTeam [of s m]
  by (auto simp: unlisted_def) (auto simp: addTeam_def split: if_splits)

lemma unlisted_submit: "unlisted n s \<Longrightarrow> unlisted n (submit prob teamName stat tm s)"
  by (auto simp: unlisted_def registered_submit submit_team)

lemma unlisted_flush: "unlisted n s \<Longrightarrow> unlisted n (snd (flush silent s))"
  using registered_flush [of s silent]
  by (auto simp: unlisted_def) (auto simp: flush_def)

lemma unlisted_freeze: "unlisted n s \<Longrightarrow> unlisted n (snd (freeze s))"
  using registered_freeze [of s]
  by (auto simp: unlisted_def) (auto simp: freeze_def split: if_splits)

lemma unlisted_unfreeze: "unlisted n s \<Longrightarrow> unlisted n (unfreeze lt s)"
  by (auto simp: unlisted_def registered_unfreeze teams_unfreeze)

lemma unlisted_scroll:
  assumes "unlisted n s"
  shows "unlisted n (snd (scroll s))"
proof -
  have "unlisted n (s\<lparr>lastRanking := calculateRanking s\<rparr>)"
    using unlisted_flush [OF assms, of True] by (simp add: flush_def)
  then have "unlisted n (snd (scroll_loop (s\<lparr>lastRanking := calculateRanking s\<rparr>)))"
    using scroll_loop_preserves [of "unlisted n", OF unlisted_unfreeze] by blast
  then have "unlisted n ((snd (scroll_loop (s\<lparr>lastRanking := calculateRanking s\<rparr>)))\<lparr>frozen := False\<rparr>)"
    by (simp add: unlisted_def registered_frozen_update)
  with assms show ?thesis by (simp add: scroll_state)
qed

lemma unlisted_step:
  assumes "unlisted n s" "step c s = Inr r"
  shows "unlisted n (snd r)"
  using assms(2)
proof (rule step_cases)
  fix d k
  show "unlisted n (s\<lparr>started := True, durationTime := d, problemCount := k,
          problemList := problemList s @ map (\<lambda>i. [char_of (65 + i)]) [0..<nat k]\<rparr>)"
    using assms(1) by (simp add: unlisted_def registered_def)
qed (use assms(1) in \<open>simp_all add: unlisted_addTeam unlisted_submit unlisted_flush
       unlisted_freeze unlisted_scroll\<close>)

lemma unlisted_exec: "unlisted n s \<Longrightarrow> unlisted n (exec cs s)"
  by (rule exec_induct [of "unlisted n", OF _ unlisted_step])

lemma rank_in_absent: "n \<notin> fst ` set r \<Longrightarrow> rank_in r n = 0"
proof -
  assume "n \<notin> fst ` set r"
  then have "find (\<lambda>p. fst p = n) r = None" by (force simp: find_None_iff)
  then show ?thesis by (simp add: rank_in_def)
qed

lemma alphabetical_rank_absent: "n \<notin> set names \<Longrightarrow> alphabetical_rank names n = 0"
proof -
  assume A: "n \<notin> set names"
  have "find (\<lambda>i. sort_by str_less names ! i = n) [0..<length (sort_by str_less names)] = None"
    unfolding find_None_iff
  proof
    assume "\<exists>i. i \<in> set [0..<length (sort_by str_less names)] \<and> sort_by str_less names ! i = n"
    then obtain i where "i < length (sort_by str_less names)" "sort_by str_less names ! i = n"
      by auto
    then have "n \<in> set (sort_by str_less names)" by (metis nth_mem)
    with A show False by (simp add: set_sort_by)
  qed
  then show ?thesis by (simp add: alphabetical_rank_def)
qed

lemma unlisted_not_ranked:
  assumes "unlisted n s"
  shows "n \<notin> fst ` set (lastRanking s)" "n \<notin> fst ` set (calculateRanking s)"
  using assms set_names_calculateRanking [of s]
  by (auto simp: unlisted_def registered_def list_all_iff)

lemma unlisted_queryRanking:
  assumes "unlisted n s"
  shows "queryRanking n s =
           [QueryRankingInfo] @ (if frozen s then [QueryRankingWarning] else [])
           @ [NowAtRanking n 0]"
  using assms rank_in_absent [OF unlisted_not_ranked(1) [OF assms]]
    alphabetical_rank_absent [of n "teamNames s"]
  by (simp add: queryRanking_def unlisted_def)

lemma unlisted_scoreboard:
  assumes "unlisted n s" "ScoreboardRow (nm, rest) \<in> set (printScoreboard s)"
  shows "nm \<noteq> n"
proof -
  from assms(2) obtain p where p: "p \<in> set (calculateRanking s)"
    and nm: "nm = name (team_at s (fst p))"
    by (auto simp: printScoreboard_def board_row_def Let_def)
  from p have "fst p \<in> set (teamNames s)"
    using set_names_calculateRanking [of s] by auto
  with assms(1) registeredD(2) [of s "fst p"] nm show ?thesis
    by (auto simp: unlisted_def)
qed

text \<open>
  Claim C10. Let \<open>s\<close> be the state after any command sequence and \<open>n\<close> a name with no
  entry in \<open>teams s\<close>. \<^verbatim>\<open>submit\<close> for \<open>n\<close> raises nothing; it creates the entry and the
  ledger holds the submission. After any further commands the entry is still there,
  \<^verbatim>\<open>queryRanking\<close> and \<^verbatim>\<open>querySubmission\<close> do not report an unknown team, \<open>n\<close> is not in
  \<^verbatim>\<open>teamNames\<close>, in the computed ranking, in the cached ranking or in a scoreboard row, and
  \<^verbatim>\<open>queryRanking\<close> reports rank 0.
\<close>

theorem submit_creates_unranked_team:
  fixes cs cs' :: "cmd list" and prob n stat pf sf :: string and tm :: int
  defines "s \<equiv> exec cs ICPCSystem0"
  defines "s1 \<equiv> submit prob n stat tm s"
  defines "s2 \<equiv> exec cs' s1"
  assumes "teams s n = None"
  shows "step (SUBMIT prob n stat tm) s = Inr ([], s1)
       \<and> teams s1 n \<noteq> None
       \<and> submissions (team_at s1 n) = [\<lparr>problem = prob, status = stat, time = tm\<rparr>]
       \<and> teams s2 n \<noteq> None
       \<and> n \<notin> set (teamNames s2)
       \<and> n \<notin> fst ` set (calculateRanking s2)
       \<and> n \<notin> fst ` set (lastRanking s2)
       \<and> (\<forall>nm rest. ScoreboardRow (nm, rest) \<in> set (printScoreboard s2) \<longrightarrow> nm \<noteq> n)
       \<and> queryRanking n s2 =
            [QueryRankingInfo] @ (if frozen s2 then [QueryRankingWarning] else [])
            @ [NowAtRanking n 0]
       \<and> QuerySubmissionFail \<notin> set (querySubmission n pf sf s2)"
proof -
  have R: "registered s" unfolding s_def by (rule reach_registered)
  with assms(4) have "n \<notin> set (teamNames s)"
    using registeredD(1) [of s n] by auto
  then have "unlisted n s1"
    using R by (simp add: unlisted_def s1_def registered_submit submit_team)
  then have U: "unlisted n s2" unfolding s2_def by (rule unlisted_exec)
  have L: "submissions (team_at s1 n) = [\<lparr>problem = prob, status = stat, time = tm\<rparr>]"
    using assms(4) by (simp add: s1_def submit_team team_at_def TeamNew_def)
  have Q: "QuerySubmissionFail \<notin> set (querySubmission n pf sf s2)"
    using U by (auto simp: querySubmission_def unlisted_def split: option.splits)
  show ?thesis
    using U L Q unlisted_not_ranked [OF U] unlisted_queryRanking [OF U] unlisted_scoreboard [OF U]
    by (auto simp: unlisted_def s1_def submit_team)
qed

theorem submit_creates_unranked_team_witness:
  "teams (exec [ADDTEAM ''a'', START 300 1] ICPCSystem0) ''ghost'' = None
   \<and> submissions (team_at (submit ''A'' ''ghost'' ''Accepted'' 5
        (exec [ADDTEAM ''a'', START 300 1] ICPCSystem0)) ''ghost'')
      = [\<lparr>problem = ''A'', status = ''Accepted'', time = 5\<rparr>]
   \<and> calculateRanking (exec [FLUSH] (submit ''A'' ''ghost'' ''Accepted'' 5
        (exec [ADDTEAM ''a'', START 300 1] ICPCSystem0))) = [(''a'', 1)]
   \<and> queryRanking ''ghost'' (exec [FLUSH] (submit ''A'' ''ghost'' ''Accepted'' 5
        (exec [ADDTEAM ''a'', START 300 1] ICPCSystem0)))
      = [QueryRankingInfo, NowAtRanking ''ghost'' 0]
   \<and> querySubmission ''ghost'' ''ALL'' ''ALL'' (exec [FLUSH] (submit ''A'' ''ghost'' ''Accepted'' 5
        (exec [ADDTEAM ''a'', START 300 1] ICPCSystem0)))
      = [QuerySubmissionInfo, FoundSubmission ''ghost'' ''A'' ''Accepted'' 5]"
proof -
  let ?s = "exec [ADDTEAM ''a'', START 300 1] ICPCSystem0"
  let ?s2 = "exec [FLUSH] (submit ''A'' ''ghost'' ''Accepted'' 5 ?s)"
  have N: "teams ?s ''ghost'' = None" by (simp add: run_simps)
  have F: "\<not> frozen ?s2" by (simp add: run_simps)
  have C: "calculateRanking ?s2 = [(''a'', 1)]"
    by (simp add: run_simps calculateRanking_def rank_indices_def sort_by_def)
  have Q: "querySubmission ''ghost'' ''ALL'' ''ALL'' ?s2
      = [QuerySubmissionInfo, FoundSubmission ''ghost'' ''A'' ''Accepted'' 5]"
    by (simp add: run_simps querySubmission_def)
  from submit_creates_unranked_team [where cs = "[ADDTEAM ''a'', START 300 1]" and n = "''ghost''"
      and prob = "''A''" and stat = "''Accepted''" and tm = 5 and cs' = "[FLUSH]", OF N]
  show ?thesis using N F C Q by simp
qed

section \<open>Reveal steps on an up-to-date ranking\<close>

text \<open>
  At the head of every iteration \<^verbatim>\<open>lastRanking\<close> is the ranking of the current state:
  \<^verbatim>\<open>flush(true)\<close> computes it before the loop and every reveal step recomputes it.
\<close>

lemma lastRanking_flush: "lastRanking (snd (flush silent s)) = calculateRanking (snd (flush silent s))"
  by (simp add: flush_def)

lemma scan_frozen_fresh:
  assumes "lastRanking s = calculateRanking s" and "scan_frozen s = (True, lt, lr)"
  shows "(lt, lr) \<in> set (lastRanking s)" and "team_hidden s lt"
    and "\<forall>p\<in>set (lastRanking s). team_hidden s (fst p) \<longrightarrow> snd p \<le> lr"
proof -
  note P = scan_frozen_props [OF assms(2)]
  from P(1) obtain p where p: "p \<in> set (lastRanking s)" "team_hidden s (fst p)" by auto
  with P(3) have "snd p \<le> lr" by auto
  moreover from p(1) assms(1) have "1 \<le> snd p" by (simp add: ranks_positive)
  ultimately have "lr \<noteq> 0" by auto
  with P(4) show "(lt, lr) \<in> set (lastRanking s)" and "team_hidden s lt" by auto
  from P(3) show "\<forall>p\<in>set (lastRanking s). team_hidden s (fst p) \<longrightarrow> snd p \<le> lr" .
qed

lemma scan_frozen_none:
  assumes "scan_frozen s = (False, lt, lr)"
  shows "\<forall>p\<in>set (lastRanking s). \<not> team_hidden s (fst p)"
  using scan_frozen_props(1) [OF assms] by simp

lemma scroll_steps_le_pending:
  assumes "lastRanking s = calculateRanking s"
  shows "scroll_steps s \<le> pending s"
  using assms
proof (induction s rule: scroll_steps.induct)
  case (1 s)
  obtain hf lt lr where sc: "scan_frozen s = (hf, lt, lr)" by (cases "scan_frozen s")
  show ?case
  proof (cases hf)
    case False
    with sc show ?thesis by (simp add: scroll_steps.simps [of s])
  next
    case True
    from sc True have sc': "scan_frozen s = (True, lt, lr)" by simp
    from scan_frozen_fresh(1,2) [OF "1.prems" sc']
    have "pending (unfreeze lt s) < pending s" by (rule pending_unfreeze_less)
    moreover have "scroll_steps (unfreeze lt s) \<le> pending (unfreeze lt s)"
      using "1.IH" [of hf "(lt, lr)" lt lr] sc True lastRanking_unfreeze [of lt s] by simp
    ultimately show ?thesis using sc True by (simp add: scroll_steps.simps [of s])
  qed
qed

lemma pending_le_product:
  assumes "lastRanking s = calculateRanking s"
  shows "pending s \<le> length (teamNames s) * length (problemList s)"
proof -
  have "pending_set s \<subseteq> set (teamNames s) \<times> set (problemList s)"
    using assms set_names_calculateRanking [of s] by (auto simp: pending_set_def)
  then have "pending s \<le> card (set (teamNames s) \<times> set (problemList s))"
    unfolding pending_def by (intro card_mono) simp_all
  also have "\<dots> = card (set (teamNames s)) * card (set (problemList s))"
    by (rule card_cartesian_product)
  also have "\<dots> \<le> length (teamNames s) * length (problemList s)"
    by (intro mult_le_mono card_length)
  finally show ?thesis .
qed

lemma frozenSubs_unfreeze_other:
  assumes "(n, p) \<noteq> (lt, unfreeze_prob (team_at s lt) (problemList s))"
  shows "frozenSubs (problem_at (team_at (unfreeze lt s) n) p) = frozenSubs (problem_at (team_at s n) p)"
  using assms
  by (cases "n = lt") (auto simp: team_at_unfreeze_other team_at_unfreeze_same problem_at_def)

lemma has_frozen_problem_at: "has_frozen t p = (frozenSubs (problem_at t p) \<noteq> [])"
  by (simp add: has_frozen_def problem_at_def ProblemStatus0_def split: option.splits)

text \<open>
  Claim C8. The loop of \<^verbatim>\<open>scroll\<close> is a total function (\<open>scroll_loop\<close>, with
  \<open>scroll_steps\<close> counting its iterations), and started as \<^verbatim>\<open>scroll\<close> starts it, after
  \<^verbatim>\<open>flush(true)\<close>, it makes at most (number of registered teams) times (number of problems)
  reveal steps. A reveal step on an up-to-date ranking finds the chosen queue non-empty,
  leaves it empty and leaves every other queue of every team as it was.
\<close>

theorem scroll_terminates:
  "scroll_steps (snd (flush True s)) \<le> length (teamNames s) * length (problemList s)
   \<and> (\<forall>s' lt lr. lastRanking s' = calculateRanking s' \<and> scan_frozen s' = (True, lt, lr) \<longrightarrow>
        frozenSubs (problem_at (team_at s' lt) (unfreeze_prob (team_at s' lt) (problemList s'))) \<noteq> []
        \<and> frozenSubs (problem_at (team_at (unfreeze lt s') lt)
              (unfreeze_prob (team_at s' lt) (problemList s'))) = []
        \<and> (\<forall>n p. (n, p) \<noteq> (lt, unfreeze_prob (team_at s' lt) (problemList s')) \<longrightarrow>
              frozenSubs (problem_at (team_at (unfreeze lt s') n) p)
                = frozenSubs (problem_at (team_at s' n) p))
        \<and> scroll_steps s' = Suc (scroll_steps (unfreeze lt s')))"
proof -
  have "scroll_steps (snd (flush True s)) \<le> pending (snd (flush True s))"
    by (rule scroll_steps_le_pending [OF lastRanking_flush])
  also have "\<dots> \<le> length (teamNames (snd (flush True s))) * length (problemList (snd (flush True s)))"
    by (rule pending_le_product [OF lastRanking_flush])
  finally have A: "scroll_steps (snd (flush True s)) \<le> length (teamNames s) * length (problemList s)"
    by (simp add: flush_def)
  have B: "frozenSubs (problem_at (team_at s' lt) (unfreeze_prob (team_at s' lt) (problemList s'))) \<noteq> []
        \<and> frozenSubs (problem_at (team_at (unfreeze lt s') lt)
              (unfreeze_prob (team_at s' lt) (problemList s'))) = []
        \<and> (\<forall>n p. (n, p) \<noteq> (lt, unfreeze_prob (team_at s' lt) (problemList s')) \<longrightarrow>
              frozenSubs (problem_at (team_at (unfreeze lt s') n) p)
                = frozenSubs (problem_at (team_at s' n) p))
        \<and> scroll_steps s' = Suc (scroll_steps (unfreeze lt s'))"
    if "lastRanking s' = calculateRanking s'" "scan_frozen s' = (True, lt, lr)" for s' lt lr
  proof -
    from scan_frozen_fresh(2) [OF that] have "team_hidden s' lt" .
    from unfreeze_prob_hidden [OF this]
    have "frozenSubs (problem_at (team_at s' lt) (unfreeze_prob (team_at s' lt) (problemList s'))) \<noteq> []"
      by (simp add: has_frozen_problem_at)
    moreover have "frozenSubs (problem_at (team_at (unfreeze lt s') lt)
              (unfreeze_prob (team_at s' lt) (problemList s'))) = []"
      by (simp add: team_at_unfreeze_same problem_at_def)
    moreover have "scroll_steps s' = Suc (scroll_steps (unfreeze lt s'))"
      using that(2) by (simp add: scroll_steps.simps [of s'])
    ultimately show ?thesis using frozenSubs_unfreeze_other by blast
  qed
  from A B show ?thesis by blast
qed

text \<open>The equations that evaluate the ranking and a reveal step on a concrete state.\<close>

lemma problem_letters:
  "char_of (65 :: nat) = CHR ''A''" "char_of (66 :: nat) = CHR ''B''"
  "char_of (67 :: nat) = CHR ''C''"
  by code_simp+

lemmas rank_simps =
  calculateRanking_def rank_indices_def sort_by_def getTeamRankInfo_def rank_step_def
  counted_def better_def str_less_def wrap32_def

lemmas scroll_simps =
  scan_frozen_def scan_step_def has_frozen_def unfreeze_prob_def unfreeze_def replay_def
  replay_sub_def notify_def rank_in_def team_ranked_def

text \<open>A run that ends with one hidden submission of the only team.\<close>

definition one_hidden :: ICPCSystem where
  "one_hidden =
     exec [ADDTEAM ''t'', START 300 1, FREEZE, SUBMIT ''A'' ''t'' ''Accepted'' 250] ICPCSystem0"

theorem scroll_terminates_witness:
  "scroll_steps (snd (flush True one_hidden)) \<le> 1
   \<and> scan_frozen (snd (flush True one_hidden)) = (True, ''t'', 1)
   \<and> frozenSubs (problem_at (team_at (snd (flush True one_hidden)) ''t'') ''A'')
       = [\<lparr>problem = ''A'', status = ''Accepted'', time = 250\<rparr>]
   \<and> frozenSubs (problem_at (team_at (unfreeze ''t'' (snd (flush True one_hidden))) ''t'') ''A'') = []
   \<and> scroll_steps (snd (flush True one_hidden))
       = Suc (scroll_steps (unfreeze ''t'' (snd (flush True one_hidden))))"
proof -
  let ?s = "snd (flush True one_hidden)"
  have L: "lastRanking ?s = calculateRanking ?s" by (rule lastRanking_flush)
  have S: "scan_frozen ?s = (True, ''t'', 1)"
    by (simp add: one_hidden_def run_simps rank_simps scroll_simps problem_letters)
  have U: "unfreeze_prob (team_at ?s ''t'') (problemList ?s) = ''A''"
    by (simp add: one_hidden_def run_simps scroll_simps problem_letters)
  have Q: "frozenSubs (problem_at (team_at ?s ''t'') ''A'')
             = [\<lparr>problem = ''A'', status = ''Accepted'', time = 250\<rparr>]"
    by (simp add: one_hidden_def run_simps)
  have N: "length (teamNames one_hidden) * length (problemList one_hidden) = 1"
    by (simp add: one_hidden_def run_simps)
  note T = scroll_terminates [of one_hidden]
  from T have A: "scroll_steps ?s \<le> length (teamNames one_hidden) * length (problemList one_hidden)"
    by (rule conjunct1)
  from T [THEN conjunct2, THEN spec, THEN spec, THEN spec, THEN mp, OF conjI [OF L S]]
  have "frozenSubs (problem_at (team_at (unfreeze ''t'' ?s) ''t'')
           (unfreeze_prob (team_at ?s ''t'') (problemList ?s))) = []"
    and "scroll_steps ?s = Suc (scroll_steps (unfreeze ''t'' ?s))"
    by blast+
  with A S Q N show ?thesis by (simp only: U simp_thms)
qed

section \<open>The comparator is a strict linear order\<close>

lemma lex_less_irrefl: "\<not> lex_less xs xs"
  by (induction xs) auto

lemma lex_less_trans: "lex_less xs ys \<Longrightarrow> lex_less ys zs \<Longrightarrow> lex_less xs zs"
proof (induction xs ys arbitrary: zs rule: lex_less.induct)
  case (4 x xs y ys)
  then show ?case by (cases zs) (auto split: if_splits)
qed (auto elim: lex_less.elims)

lemma lex_less_total: "xs \<noteq> ys \<Longrightarrow> lex_less xs ys \<or> lex_less ys xs"
  by (induction xs ys rule: lex_less.induct) auto

lemma lex_less_asym: "lex_less xs ys \<Longrightarrow> \<not> lex_less ys xs"
  using lex_less_trans [of xs ys xs] lex_less_irrefl by blast

lemma map_of_char_eq: "(map of_char a :: nat list) = map of_char b \<Longrightarrow> a = b"
  by (induction a arbitrary: b) auto

lemma str_less_irrefl: "\<not> str_less a a"
  by (simp add: str_less_def lex_less_irrefl)

lemma str_less_trans: "str_less a b \<Longrightarrow> str_less b c \<Longrightarrow> str_less a c"
  unfolding str_less_def by (rule lex_less_trans)

lemma str_less_total: "a \<noteq> b \<Longrightarrow> str_less a b \<or> str_less b a"
  unfolding str_less_def using lex_less_total map_of_char_eq by blast

lemma better_spec:
  "better ta tb =
     (info_solved ta > info_solved tb
      \<or> info_solved ta = info_solved tb
        \<and> (info_penalty ta < info_penalty tb
           \<or> info_penalty ta = info_penalty tb
             \<and> (lex_less (info_times ta) (info_times tb)
                \<or> info_times ta = info_times tb \<and> str_less (info_name ta) (info_name tb))))"
  by (auto simp: better_def lex_less_irrefl)

lemma better_irrefl: "\<not> better a a"
  by (simp add: better_def str_less_irrefl)

lemma better_trans:
  assumes "better a b" "better b c"
  shows "better a c"
proof -
  consider "info_solved a > info_solved b"
    | "info_solved a = info_solved b" "info_penalty a < info_penalty b"
    | "info_solved a = info_solved b" "info_penalty a = info_penalty b"
      "lex_less (info_times a) (info_times b)"
    | "info_solved a = info_solved b" "info_penalty a = info_penalty b"
      "info_times a = info_times b" "str_less (info_name a) (info_name b)"
    using assms(1) unfolding better_spec by blast
  then show ?thesis
  proof cases
    case 1
    with assms(2) show ?thesis unfolding better_spec by auto
  next
    case 2
    with assms(2) show ?thesis unfolding better_spec by auto
  next
    case 3
    with assms(2) lex_less_trans [of "info_times a" "info_times b" "info_times c"]
    show ?thesis unfolding better_spec by auto
  next
    case 4
    with assms(2) str_less_trans [of "info_name a" "info_name b" "info_name c"]
    show ?thesis unfolding better_spec by auto
  qed
qed

lemma better_total:
  assumes "a \<noteq> b"
  shows "better a b \<or> better b a"
proof (rule ccontr)
  assume N: "\<not> (better a b \<or> better b a)"
  then have 1: "info_solved a = info_solved b" unfolding better_spec by auto
  with N have 2: "info_penalty a = info_penalty b" unfolding better_spec by auto
  with 1 N have 3: "info_times a = info_times b"
    unfolding better_spec using lex_less_total [of "info_times a" "info_times b"] by auto
  with 1 2 N have "info_name a = info_name b"
    unfolding better_spec using str_less_total [of "info_name a" "info_name b"] by auto
  with 1 2 3 have "a = b" by simp
  with assms show False by contradiction
qed

lemma better_asym: "better a b \<Longrightarrow> \<not> better b a"
  using better_trans [of a b a] better_irrefl by blast

section \<open>Sorting by a comparator\<close>

lemma set_insert_by: "set (insert_by lt x xs) = insert x (set xs)"
  using mset_insert_by [of lt x xs] by (metis set_mset_mset set_mset_add_mset_insert)

lemma sorted_insert_by:
  assumes tr: "\<And>a b c. lt a b \<Longrightarrow> lt b c \<Longrightarrow> lt a c"
    and tot: "\<And>y. y \<in> set xs \<Longrightarrow> lt x y \<or> lt y x"
    and "sorted_wrt lt xs"
  shows "sorted_wrt lt (insert_by lt x xs)"
  using tot \<open>sorted_wrt lt xs\<close>
proof (induction xs)
  case Nil
  then show ?case by simp
next
  case (Cons y ys)
  show ?case
  proof (cases "lt x y")
    case True
    with Cons.prems(2) tr show ?thesis by auto
  next
    case False
    with Cons.prems(1) have "lt y x" by auto
    moreover have "sorted_wrt lt (insert_by lt x ys)"
      using Cons by auto
    ultimately show ?thesis
      using False Cons.prems(2) by (auto simp: set_insert_by)
  qed
qed

lemma sorted_sort_by:
  assumes tr: "\<And>a b c. lt a b \<Longrightarrow> lt b c \<Longrightarrow> lt a c"
    and tot: "\<And>a b. a \<in> set xs \<Longrightarrow> b \<in> set xs \<Longrightarrow> a \<noteq> b \<Longrightarrow> lt a b \<or> lt b a"
    and "distinct xs"
  shows "sorted_wrt lt (sort_by lt xs)"
  using tot \<open>distinct xs\<close>
proof (induction xs)
  case Nil
  then show ?case by (simp add: sort_by_def)
next
  case (Cons x xs)
  have S: "sorted_wrt lt (sort_by lt xs)"
    using Cons by auto
  have "sorted_wrt lt (insert_by lt x (sort_by lt xs))"
  proof (rule sorted_insert_by [OF tr _ S])
    fix y assume "y \<in> set (sort_by lt xs)"
    then have "y \<in> set xs" by (simp add: set_sort_by)
    with Cons.prems show "lt x y \<or> lt y x" by auto
  qed
  then show ?case by (simp add: sort_by_def)
qed

lemma sorted_wrt_unique:
  assumes irr: "\<And>a. \<not> lt a a"
    and tr: "\<And>a b c. lt a b \<Longrightarrow> lt b c \<Longrightarrow> lt a c"
    and "sorted_wrt lt xs" "sorted_wrt lt ys" "set xs = set ys"
  shows "xs = ys"
  using assms(3-)
proof (induction xs arbitrary: ys)
  case Nil
  then show ?case by simp
next
  case (Cons x xs)
  then obtain y ys' where ys: "ys = y # ys'" by (cases ys) auto
  have "x = y"
  proof (rule ccontr)
    assume "x \<noteq> y"
    with Cons.prems ys have "lt x y" "lt y x" by auto
    with tr irr show False by blast
  qed
  moreover have "x \<notin> set xs" "y \<notin> set ys'"
    using Cons.prems ys irr by auto
  ultimately have "set xs = set ys'"
    using Cons.prems(3) ys by auto
  with Cons ys \<open>x = y\<close> show ?case by auto
qed

text \<open>
  Whatever algorithm \<^verbatim>\<open>std::sort\<close> runs, its result is a permutation of the input that
  is sorted for the comparator; for a strict linear order that result is \<open>sort_by\<close>.
\<close>

lemma sort_by_unique:
  assumes "\<And>a. \<not> lt a a"
    and "\<And>a b c. lt a b \<Longrightarrow> lt b c \<Longrightarrow> lt a c"
    and "\<And>a b. a \<in> set xs \<Longrightarrow> b \<in> set xs \<Longrightarrow> a \<noteq> b \<Longrightarrow> lt a b \<or> lt b a"
    and "distinct xs"
    and "mset ys = mset xs" "sorted_wrt lt ys"
  shows "ys = sort_by lt xs"
proof (rule sorted_wrt_unique [OF assms(1,2) assms(6)])
  show "sorted_wrt lt (sort_by lt xs)"
    by (rule sorted_sort_by [OF assms(2,3,4)])
  show "set ys = set (sort_by lt xs)"
    using assms(5) by (metis set_sort_by set_mset_mset)
qed

section \<open>The ranking list\<close>

text \<open>\<open>before s a b\<close>: the comparator of \<^verbatim>\<open>calculateRanking\<close> puts team \<open>a\<close> ahead of team \<open>b\<close>.\<close>

definition before :: "ICPCSystem \<Rightarrow> string \<Rightarrow> string \<Rightarrow> bool" where
  "before s a b = better (getTeamRankInfo s a) (getTeamRankInfo s b)"

lemma info_name_foldl_rank_step: "info_name (foldl (rank_step t) info ps) = info_name info"
  by (induction ps arbitrary: info) (simp_all add: rank_step_def split: option.splits)

lemma info_name_getTeamRankInfo [simp]: "info_name (getTeamRankInfo s n) = n"
  by (simp add: getTeamRankInfo_def Let_def info_name_foldl_rank_step)

lemma before_irrefl: "\<not> before s a a"
  by (simp add: before_def better_irrefl)

lemma before_trans: "before s a b \<Longrightarrow> before s b c \<Longrightarrow> before s a c"
  unfolding before_def by (rule better_trans)

lemma before_total: "a \<noteq> b \<Longrightarrow> before s a b \<or> before s b a"
  unfolding before_def by (rule better_total) (metis info_name_getTeamRankInfo)

lemma before_asym: "before s a b \<Longrightarrow> \<not> before s b a"
  unfolding before_def by (rule better_asym)

lemma insert_by_cong:
  "(\<And>b. b \<in> set ys \<Longrightarrow> lt x b = lt' x b) \<Longrightarrow> insert_by lt x ys = insert_by lt' x ys"
  by (induction ys) auto

lemma sort_by_cong:
  assumes "\<And>a b. a \<in> set xs \<Longrightarrow> b \<in> set xs \<Longrightarrow> lt a b = lt' a b"
  shows "sort_by lt xs = sort_by lt' xs"
  using assms
proof (induction xs)
  case Nil
  then show ?case by (simp add: sort_by_def)
next
  case (Cons x xs)
  then have IH: "sort_by lt xs = sort_by lt' xs" by auto
  have "insert_by lt x (sort_by lt' xs) = insert_by lt' x (sort_by lt' xs)"
    by (rule insert_by_cong) (simp add: set_sort_by Cons.prems)
  with IH show ?case by (simp add: sort_by_def)
qed

lemma sorted_rank_indices:
  assumes "distinct (teamNames s)"
  shows "sorted_wrt (\<lambda>a b. before s (teamNames s ! a) (teamNames s ! b)) (rank_indices s)"
proof -
  let ?cmp = "\<lambda>a b. before s (teamNames s ! a) (teamNames s ! b)"
  let ?infos = "map (getTeamRankInfo s) (teamNames s)"
  let ?cmp' = "\<lambda>a b. better (?infos ! a) (?infos ! b)"
  have "sorted_wrt ?cmp (sort_by ?cmp [0..<length (teamNames s)])"
  proof (rule sorted_sort_by)
    fix a b c assume "?cmp a b" "?cmp b c"
    then show "?cmp a c" by (rule before_trans)
  next
    fix a b assume "a \<in> set [0..<length (teamNames s)]" "b \<in> set [0..<length (teamNames s)]" "a \<noteq> b"
    with assms have "teamNames s ! a \<noteq> teamNames s ! b"
      by (simp add: nth_eq_iff_index_eq)
    then show "?cmp a b \<or> ?cmp b a" by (rule before_total)
  qed simp
  moreover have "sort_by ?cmp' [0..<length (teamNames s)] = sort_by ?cmp [0..<length (teamNames s)]"
    by (rule sort_by_cong) (simp add: before_def)
  ultimately show ?thesis by (simp add: rank_indices_def Let_def)
qed


lemma sorted_ranking_names:
  assumes "distinct (teamNames s)"
  shows "sorted_wrt (before s) (map fst (calculateRanking s))"
  using sorted_rank_indices [OF assms]
  by (simp add: map_fst_calculateRanking sorted_wrt_map)

lemma distinct_ranking_names:
  assumes "distinct (teamNames s)"
  shows "distinct (map fst (calculateRanking s))"
  using mset_names_calculateRanking [of s] assms
  by (metis distinct_count_atmost_1 set_mset_mset)

lemma calculateRanking_nth:
  assumes "i < length (teamNames s)"
  shows "calculateRanking s ! i = (map fst (calculateRanking s) ! i, int i + 1)"
  using assms by (simp add: calculateRanking_def Let_def length_rank_indices)

lemma ranking_mem_iff:
  "(n, r) \<in> set (calculateRanking s) =
     (\<exists>i<length (teamNames s). n = map fst (calculateRanking s) ! i \<and> r = int i + 1)"
proof
  assume "(n, r) \<in> set (calculateRanking s)"
  then obtain i where i: "i < length (calculateRanking s)" "calculateRanking s ! i = (n, r)"
    unfolding in_set_conv_nth by blast
  from i(1) have l: "i < length (teamNames s)" by (simp add: length_calculateRanking)
  from calculateRanking_nth [OF l] i(2)
  have "n = map fst (calculateRanking s) ! i \<and> r = int i + 1" by simp
  with l show "\<exists>i<length (teamNames s). n = map fst (calculateRanking s) ! i \<and> r = int i + 1"
    by blast
next
  assume "\<exists>i<length (teamNames s). n = map fst (calculateRanking s) ! i \<and> r = int i + 1"
  then obtain i where i: "i < length (teamNames s)" "n = map fst (calculateRanking s) ! i" "r = int i + 1"
    by blast
  from calculateRanking_nth [OF i(1)] i(2,3) have "calculateRanking s ! i = (n, r)" by simp
  moreover from i(1) have "i < length (calculateRanking s)" by (simp add: length_calculateRanking)
  ultimately show "(n, r) \<in> set (calculateRanking s)"
    using nth_mem [of i "calculateRanking s"] by simp
qed

lemma rank_in_nth:
  assumes "distinct (teamNames s)" "i < length (teamNames s)"
  shows "rank_in (calculateRanking s) (map fst (calculateRanking s) ! i) = int i + 1"
proof -
  let ?R = "calculateRanking s"
  let ?n = "map fst ?R ! i"
  have len: "length ?R = length (teamNames s)" by (rule length_calculateRanking)
  have "find (\<lambda>p. fst p = ?n) ?R = Some (?n, int i + 1)"
    unfolding find_Some_iff
  proof (intro exI [of _ i] conjI allI impI)
    show "i < length ?R" using assms(2) len by simp
    show "fst (?R ! i) = ?n" using assms(2) len by simp
    show "(?n, int i + 1) = ?R ! i" using assms(2) by (simp add: calculateRanking_nth)
    fix j assume "j < i"
    then have "j < length (map fst ?R)" "i < length (map fst ?R)" "j \<noteq> i"
      using assms(2) len by simp_all
    with distinct_ranking_names [OF assms(1)]
    have "map fst ?R ! j \<noteq> map fst ?R ! i" by (simp only: nth_eq_iff_index_eq not_False_eq_True)
    moreover have "map fst ?R ! j = fst (?R ! j)"
      using \<open>j < i\<close> assms(2) len by simp
    ultimately show "\<not> fst (?R ! j) = ?n" by simp
  qed
  then show ?thesis by (simp add: rank_in_def)
qed

lemma team_ranked_nth:
  assumes "i < length (teamNames s)"
  shows "team_ranked (calculateRanking s) (int i + 1) = map fst (calculateRanking s) ! i"
proof -
  let ?R = "calculateRanking s"
  have len: "length ?R = length (teamNames s)" by (rule length_calculateRanking)
  have "find (\<lambda>p. snd p = int i + 1) ?R = Some (map fst ?R ! i, int i + 1)"
    unfolding find_Some_iff
  proof (intro exI [of _ i] conjI allI impI)
    show "i < length ?R" using assms len by simp
    show "snd (?R ! i) = int i + 1" using assms by (simp add: calculateRanking_nth)
    show "(map fst ?R ! i, int i + 1) = ?R ! i" using assms by (simp add: calculateRanking_nth)
    fix j assume "j < i"
    with assms show "\<not> snd (?R ! j) = int i + 1" by (simp add: calculateRanking_nth)
  qed
  then show ?thesis by (simp add: team_ranked_def)
qed

lemma ranked_name_index:
  assumes "n \<in> set (teamNames s)"
  obtains i where "i < length (teamNames s)" "map fst (calculateRanking s) ! i = n"
proof -
  from assms have "n \<in> set (map fst (calculateRanking s))"
    using set_names_calculateRanking [of s] by simp
  then obtain i where "i < length (map fst (calculateRanking s))" "map fst (calculateRanking s) ! i = n"
    by (metis in_set_conv_nth)
  then show ?thesis using that by (simp add: length_calculateRanking)
qed

text \<open>
  In a list sorted for a strict order the index of an element is the number of elements
  ahead of it, so a team's rank is one more than the number of teams ahead of it.
\<close>

lemma sorted_index_card:
  assumes irr: "\<And>a. \<not> lt a a"
    and tr: "\<And>a b c. lt a b \<Longrightarrow> lt b c \<Longrightarrow> lt a c"
    and srt: "sorted_wrt lt xs" and i: "i < length xs"
  shows "card {m \<in> set xs. lt m (xs ! i)} = i"
proof -
  have less: "lt (xs ! j) (xs ! k)" if "j < k" "k < length xs" for j k
    using srt that by (simp add: sorted_wrt_iff_nth_less)
  have inj: "inj_on ((!) xs) {0..<i}"
  proof (rule inj_onI)
    fix j k assume jk: "j \<in> {0..<i}" "k \<in> {0..<i}" "xs ! j = xs ! k"
    show "j = k"
    proof (rule ccontr)
      assume "j \<noteq> k"
      then consider "j < k" | "k < j" by linarith
      then show False
      proof cases
        case 1
        with jk i less [of j k] irr [of "xs ! k"] show False by simp
      next
        case 2
        with jk i less [of k j] irr [of "xs ! k"] show False by simp
      qed
    qed
  qed
  have "{m \<in> set xs. lt m (xs ! i)} = (!) xs ` {0..<i}"
  proof (intro set_eqI iffI)
    fix m assume "m \<in> {m \<in> set xs. lt m (xs ! i)}"
    then have "m \<in> set xs" and mi: "lt m (xs ! i)" by simp_all
    then obtain j where j: "j < length xs" "m = xs ! j"
      by (metis in_set_conv_nth)
    have "j < i"
    proof (rule ccontr)
      assume "\<not> j < i"
      then consider "j = i" | "i < j" by linarith
      then show False
      proof cases
        case 1
        with j mi irr show False by simp
      next
        case 2
        from less [OF 2 j(1)] have "lt (xs ! i) (xs ! j)" .
        with mi j(2) tr irr show False by blast
      qed
    qed
    with j(2) show "m \<in> (!) xs ` {0..<i}" by simp
  next
    fix m assume "m \<in> (!) xs ` {0..<i}"
    then obtain j where j: "j < i" "m = xs ! j" by auto
    with i have "lt m (xs ! i)" by (simp add: less)
    moreover from j i have "m \<in> set xs" by simp
    ultimately show "m \<in> {m \<in> set xs. lt m (xs ! i)}" by simp
  qed
  then have "card {m \<in> set xs. lt m (xs ! i)} = card ((!) xs ` {0..<i})" by simp
  also have "\<dots> = card {0..<i}" by (rule card_image [OF inj])
  finally show ?thesis by simp
qed

lemma rank_in_card:
  assumes "distinct (teamNames s)" "n \<in> set (teamNames s)"
  shows "rank_in (calculateRanking s) n = int (card {m \<in> set (teamNames s). before s m n}) + 1"
proof -
  obtain i where i: "i < length (teamNames s)" "map fst (calculateRanking s) ! i = n"
    using assms(2) by (rule ranked_name_index)
  have "i < length (map fst (calculateRanking s))"
    using i(1) by (simp add: length_calculateRanking)
  then have "card {m \<in> set (map fst (calculateRanking s)).
                 before s m (map fst (calculateRanking s) ! i)} = i"
    using sorted_index_card [of "before s" "map fst (calculateRanking s)" i]
      before_irrefl before_trans sorted_ranking_names [OF assms(1)] by blast
  moreover have "set (map fst (calculateRanking s)) = set (teamNames s)"
    using set_names_calculateRanking [of s] by simp
  ultimately have "card {m \<in> set (teamNames s). before s m n} = i"
    using i(2) by simp
  with rank_in_nth [OF assms(1) i(1)] i(2) show ?thesis by simp
qed

lemma rank_order_iff:
  assumes d: "distinct (teamNames s)"
    and a: "(a, i) \<in> set (calculateRanking s)" and b: "(b, j) \<in> set (calculateRanking s)"
  shows "(i < j) = before s a b"
proof -
  let ?L = "map fst (calculateRanking s)"
  from a obtain i' where i': "i' < length (teamNames s)" "a = ?L ! i'" "i = int i' + 1"
    unfolding ranking_mem_iff by blast
  from b obtain j' where j': "j' < length (teamNames s)" "b = ?L ! j'" "j = int j' + 1"
    unfolding ranking_mem_iff by blast
  have len: "length ?L = length (teamNames s)" by (simp add: length_calculateRanking)
  have less: "before s (?L ! x) (?L ! y)" if "x < y" "y < length (teamNames s)" for x y
    using sorted_ranking_names [OF d] that len by (simp add: sorted_wrt_iff_nth_less)
  show ?thesis
  proof
    assume "i < j"
    with i'(3) j'(3) have "i' < j'" by simp
    from less [OF this j'(1)] i'(2) j'(2) show "before s a b" by simp
  next
    assume ab: "before s a b"
    show "i < j"
    proof (rule ccontr)
      assume "\<not> i < j"
      with i'(3) j'(3) consider "i' = j'" | "j' < i'" by linarith
      then show False
      proof cases
        case 1
        with i'(2) j'(2) ab before_irrefl show False by simp
      next
        case 2
        from less [OF 2 i'(1)] i'(2) j'(2) have "before s b a" by simp
        with ab before_asym show False by blast
      qed
    qed
  qed
qed

lemma ranked_pair:
  assumes "distinct (teamNames s)" "n \<in> set (teamNames s)"
  shows "(n, rank_in (calculateRanking s) n) \<in> set (calculateRanking s)"
proof -
  obtain i where i: "i < length (teamNames s)" "map fst (calculateRanking s) ! i = n"
    using assms(2) by (rule ranked_name_index)
  from rank_in_nth [OF assms(1) i(1)] i(2)
  have "rank_in (calculateRanking s) n = int i + 1" by simp
  with i show ?thesis unfolding ranking_mem_iff by blast
qed

lemma sorted_info_times: "sorted (rev (info_times (getTeamRankInfo s n)))"
  by (simp add: getTeamRankInfo_def Let_def)

text \<open>
  Claim C1. The comparator of \<^verbatim>\<open>calculateRanking\<close> orders by higher solved count, then lower
  penalty, then lexicographically smaller sequence of solve times (which
  \<^verbatim>\<open>getTeamRankInfo\<close> holds in descending order), then smaller name, the names compared
  byte by byte; the solved count and the penalty are the 32-bit values that
  \<^verbatim>\<open>getTeamRankInfo\<close> computes, wrap-around included. After any command sequence, of two different registered teams exactly one
  is ahead of the other, and being ahead is irreflexive and transitive. The ranking lists
  every registered team once, the ranks are \<open>1, 2, \<dots>\<close> up to the number of teams in list
  order, a team has a smaller rank than another exactly when it is ahead of it, and two
  different registered teams never have the same rank.
\<close>

theorem ranking_total_order:
  fixes cs :: "cmd list"
  defines "s \<equiv> exec cs ICPCSystem0"
  shows "(\<forall>ta tb. better ta tb =
            (info_solved ta > info_solved tb
             \<or> info_solved ta = info_solved tb
               \<and> (info_penalty ta < info_penalty tb
                  \<or> info_penalty ta = info_penalty tb
                    \<and> (lex_less (info_times ta) (info_times tb)
                       \<or> info_times ta = info_times tb
                         \<and> str_less (info_name ta) (info_name tb)))))
       \<and> (\<forall>n. sorted (rev (info_times (getTeamRankInfo s n))))
       \<and> (\<forall>a b. a \<in> set (teamNames s) \<and> b \<in> set (teamNames s) \<and> a \<noteq> b \<longrightarrow>
             before s a b \<noteq> before s b a)
       \<and> (\<forall>a b c. \<not> before s a a \<and> (before s a b \<and> before s b c \<longrightarrow> before s a c))
       \<and> map snd (calculateRanking s) = map int [1..<Suc (length (teamNames s))]
       \<and> distinct (map fst (calculateRanking s))
       \<and> set (map fst (calculateRanking s)) = set (teamNames s)
       \<and> (\<forall>a i b j. (a, i) \<in> set (calculateRanking s) \<and> (b, j) \<in> set (calculateRanking s) \<longrightarrow>
             (i < j) = before s a b)
       \<and> (\<forall>a b. a \<in> set (teamNames s) \<and> b \<in> set (teamNames s) \<and> a \<noteq> b \<longrightarrow>
             rank_in (calculateRanking s) a \<noteq> rank_in (calculateRanking s) b
             \<and> (rank_in (calculateRanking s) a < rank_in (calculateRanking s) b) = before s a b)"
proof -
  have d: "distinct (teamNames s)"
    using reach_registered [of cs] by (simp add: registered_def s_def)
  have 1: "\<forall>ta tb. better ta tb =
            (info_solved ta > info_solved tb
             \<or> info_solved ta = info_solved tb
               \<and> (info_penalty ta < info_penalty tb
                  \<or> info_penalty ta = info_penalty tb
                    \<and> (lex_less (info_times ta) (info_times tb)
                       \<or> info_times ta = info_times tb
                         \<and> str_less (info_name ta) (info_name tb))))"
    using better_spec by blast
  have 2: "\<forall>n. sorted (rev (info_times (getTeamRankInfo s n)))"
    by (simp add: sorted_info_times)
  have 3: "\<forall>a b. a \<in> set (teamNames s) \<and> b \<in> set (teamNames s) \<and> a \<noteq> b \<longrightarrow>
             before s a b \<noteq> before s b a"
    using before_total before_asym by blast
  have 4: "\<forall>a b c. \<not> before s a a \<and> (before s a b \<and> before s b c \<longrightarrow> before s a c)"
    using before_irrefl before_trans by blast
  have 5: "map snd (calculateRanking s) = map int [1..<Suc (length (teamNames s))]"
    unfolding map_snd_calculateRanking
    by (rule nth_equalityI) (simp_all del: upt_Suc)
  have 6: "distinct (map fst (calculateRanking s))"
    by (rule distinct_ranking_names [OF d])
  have 7: "set (map fst (calculateRanking s)) = set (teamNames s)"
    using set_names_calculateRanking [of s] by simp
  have 8: "\<forall>a i b j. (a, i) \<in> set (calculateRanking s) \<and> (b, j) \<in> set (calculateRanking s) \<longrightarrow>
             (i < j) = before s a b"
    using rank_order_iff [OF d] by blast
  have 9: "rank_in (calculateRanking s) a \<noteq> rank_in (calculateRanking s) b
             \<and> (rank_in (calculateRanking s) a < rank_in (calculateRanking s) b) = before s a b"
    if "a \<in> set (teamNames s)" "b \<in> set (teamNames s)" "a \<noteq> b" for a b
  proof -
    note pa = ranked_pair [OF d that(1)] and pb = ranked_pair [OF d that(2)]
    have lt: "(rank_in (calculateRanking s) a < rank_in (calculateRanking s) b) = before s a b"
      by (rule rank_order_iff [OF d pa pb])
    have gt: "(rank_in (calculateRanking s) b < rank_in (calculateRanking s) a) = before s b a"
      by (rule rank_order_iff [OF d pb pa])
    from before_total [OF that(3), of s] lt gt
    have "rank_in (calculateRanking s) a \<noteq> rank_in (calculateRanking s) b" by auto
    with lt show ?thesis by simp
  qed
  from 1 2 3 4 5 6 7 8 9 show ?thesis by blast
qed

text \<open>
  A run in which two teams tie on solved count and penalty and differ in their solve
  times, and a third team has solved nothing.
\<close>

lemma two_problems: "map (\<lambda>i. [char_of (65 + i)]) [0..<2] = [''A'', ''B'']"
  by code_simp

definition tie_break :: ICPCSystem where
  "tie_break =
     exec [ADDTEAM ''a'', ADDTEAM ''b'', ADDTEAM ''Z'', START 300 2,
           SUBMIT ''A'' ''a'' ''Accepted'' 10, SUBMIT ''A'' ''b'' ''Accepted'' 20,
           SUBMIT ''B'' ''b'' ''Accepted'' 20, SUBMIT ''B'' ''a'' ''Accepted'' 30] ICPCSystem0"

theorem ranking_total_order_witness:
  "calculateRanking tie_break = [(''b'', 1), (''a'', 2), (''Z'', 3)]
   \<and> getTeamRankInfo tie_break ''a''
       = \<lparr>info_name = ''a'', info_solved = 2, info_penalty = 40, info_times = [30, 10]\<rparr>
   \<and> getTeamRankInfo tie_break ''b''
       = \<lparr>info_name = ''b'', info_solved = 2, info_penalty = 40, info_times = [20, 20]\<rparr>
   \<and> before tie_break ''b'' ''a'' \<and> \<not> before tie_break ''a'' ''b''
   \<and> rank_in (calculateRanking tie_break) ''b'' < rank_in (calculateRanking tie_break) ''a''
   \<and> str_less ''Z'' ''a''"
proof -
  have names: "teamNames tie_break = [''a'', ''b'', ''Z'']"
    by (simp add: tie_break_def run_simps)
  have probs: "problemList tie_break = [''A'', ''B'']"
    by (simp add: tie_break_def run_simps two_problems)
  have pa: "problems (team_at tie_break ''a'') ''A''
        = Some \<lparr>solved = True, solveTime = 10, wrongAttempts = 0, frozenSubs = [],
                 wasSolvedBeforeFreeze = True\<rparr>"
      "problems (team_at tie_break ''a'') ''B''
        = Some \<lparr>solved = True, solveTime = 30, wrongAttempts = 0, frozenSubs = [],
                 wasSolvedBeforeFreeze = True\<rparr>"
    by (simp_all add: tie_break_def run_simps)
  have pb: "problems (team_at tie_break ''b'') ''A''
        = Some \<lparr>solved = True, solveTime = 20, wrongAttempts = 0, frozenSubs = [],
                 wasSolvedBeforeFreeze = True\<rparr>"
      "problems (team_at tie_break ''b'') ''B''
        = Some \<lparr>solved = True, solveTime = 20, wrongAttempts = 0, frozenSubs = [],
                 wasSolvedBeforeFreeze = True\<rparr>"
    by (simp_all add: tie_break_def run_simps)
  have pz: "problems (team_at tie_break ''Z'') ''A'' = None"
      "problems (team_at tie_break ''Z'') ''B'' = None"
    by (simp_all add: tie_break_def run_simps)
  have A: "getTeamRankInfo tie_break ''a''
       = \<lparr>info_name = ''a'', info_solved = 2, info_penalty = 40, info_times = [30, 10]\<rparr>"
    by (simp add: getTeamRankInfo_def probs pa rank_step_def counted_def wrap32_def)
  have B: "getTeamRankInfo tie_break ''b''
       = \<lparr>info_name = ''b'', info_solved = 2, info_penalty = 40, info_times = [20, 20]\<rparr>"
    by (simp add: getTeamRankInfo_def probs pb rank_step_def counted_def wrap32_def)
  have Z': "getTeamRankInfo tie_break ''Z''
       = \<lparr>info_name = ''Z'', info_solved = 0, info_penalty = 0, info_times = []\<rparr>"
    by (simp add: getTeamRankInfo_def probs pz rank_step_def counted_def wrap32_def)
  have I: "rank_indices tie_break = [1, 0, 2]"
    by (simp add: rank_indices_def names A B Z' sort_by_def better_def str_less_def)
  have R: "calculateRanking tie_break = [(''b'', 1), (''a'', 2), (''Z'', 3)]"
    by (simp add: calculateRanking_def I names upt_rec)
  have N: "''a'' \<in> set (teamNames tie_break)" "''b'' \<in> set (teamNames tie_break)"
    by (simp_all add: tie_break_def run_simps)
  have Z: "str_less ''Z'' ''a''" by (simp add: str_less_def)
  note T = ranking_total_order
    [of "[ADDTEAM ''a'', ADDTEAM ''b'', ADDTEAM ''Z'', START 300 2,
           SUBMIT ''A'' ''a'' ''Accepted'' 10, SUBMIT ''A'' ''b'' ''Accepted'' 20,
           SUBMIT ''B'' ''b'' ''Accepted'' 20, SUBMIT ''B'' ''a'' ''Accepted'' 30]",
     folded tie_break_def]
  have M: "(''b'', 1) \<in> set (calculateRanking tie_break)" "(''a'', 2) \<in> set (calculateRanking tie_break)"
    by (simp_all add: R)
  note c2 = conjunct2
  note T3 = T [THEN c2, THEN c2, THEN conjunct1, rule_format]
  note T8 = T [THEN c2, THEN c2, THEN c2, THEN c2, THEN c2, THEN c2, THEN c2, THEN conjunct1,
               rule_format]
  note T9 = T [THEN c2, THEN c2, THEN c2, THEN c2, THEN c2, THEN c2, THEN c2, THEN c2,
               rule_format]
  have ne: "''b'' \<noteq> ''a''" by simp
  from T8 [OF conjI [OF M(1) M(2)]] have ba: "before tie_break ''b'' ''a''" by simp
  from T3 [OF conjI [OF N(2) conjI [OF N(1) ne]]] ba
  have ab: "\<not> before tie_break ''a'' ''b''" by simp
  from T9 [OF conjI [OF N(2) conjI [OF N(1) ne]]] ba
  have "rank_in (calculateRanking tie_break) ''b'' < rank_in (calculateRanking tie_break) ''a''"
    by simp
  with R A B ba ab Z show ?thesis by (simp only: simp_thms)
qed

section \<open>One reveal step\<close>

text \<open>
  \<^verbatim>\<open>problemList\<close> is filled once, by \<^verbatim>\<open>start\<close>, with as many entries as its 32-bit
  argument says.
\<close>

definition problems_bounded :: "ICPCSystem \<Rightarrow> bool" where
  "problems_bounded s =
     ((\<not> started s \<longrightarrow> problemList s = []) \<and> length (problemList s) < 2147483648)"

lemma problems_bounded_fields:
  assumes "started s' = started s" "problemList s' = problemList s"
  shows "problems_bounded s' = problems_bounded s"
  using assms by (simp add: problems_bounded_def)

lemma problems_bounded_scroll:
  assumes "problems_bounded s"
  shows "problems_bounded (snd (scroll s))"
proof -
  have "problems_bounded (s\<lparr>lastRanking := calculateRanking s\<rparr>)"
    using assms by (simp add: problems_bounded_def)
  then have "problems_bounded (snd (scroll_loop (s\<lparr>lastRanking := calculateRanking s\<rparr>)))"
    using scroll_loop_preserves [of problems_bounded]
    by (simp add: problems_bounded_fields [of "unfreeze _ _"])
  then have "problems_bounded ((snd (scroll_loop (s\<lparr>lastRanking := calculateRanking s\<rparr>)))
                \<lparr>frozen := False\<rparr>)"
    by (simp add: problems_bounded_def)
  with assms show ?thesis by (simp add: scroll_state)
qed

lemma problems_bounded_step:
  assumes "problems_bounded s" "step c s = Inr r"
  shows "problems_bounded (snd r)"
  using assms(2)
proof (rule step_cases)
  fix d n :: int
  assume "\<not> started s" "0 \<le> n" "n < 2147483648"
  with assms(1)
  show "problems_bounded (s\<lparr>started := True, durationTime := d, problemCount := n,
          problemList := problemList s @ map (\<lambda>i. [char_of (65 + i)]) [0..<nat n]\<rparr>)"
    by (simp add: problems_bounded_def)
next
  fix n show "problems_bounded (snd (addTeam n s))"
    using assms(1) by (simp add: problems_bounded_def addTeam_def)
next
  fix prob teamName stat tm
  show "problems_bounded (submit prob teamName stat tm s)"
    using assms(1) by (simp add: problems_bounded_def)
next
  show "problems_bounded (snd (flush False s))"
    using assms(1) by (simp add: problems_bounded_def flush_def)
next
  show "problems_bounded (snd (freeze s))"
    using assms(1) by (simp add: problems_bounded_def freeze_def)
qed (use assms(1) in \<open>simp_all add: problems_bounded_scroll\<close>)

lemma reach_problems_bounded: "problems_bounded (exec cs ICPCSystem0)"
  by (rule exec_induct [of problems_bounded, OF _ problems_bounded_step])
     (simp add: problems_bounded_def ICPCSystem0_def)

text \<open>
  The states at the head of the loop of \<^verbatim>\<open>scroll\<close>: the registered names are distinct and
  stored, \<^verbatim>\<open>lastRanking\<close> is the ranking of the state itself, and the problem list is as
  short as \<^verbatim>\<open>start\<close> can make it.
\<close>

definition loop_head :: "ICPCSystem \<Rightarrow> bool" where
  "loop_head s =
     (registered s \<and> lastRanking s = calculateRanking s
      \<and> length (problemList s) < 2147483648)"

lemma loop_head_start: "loop_head (snd (flush True (exec cs ICPCSystem0)))"
  using registered_flush [OF reach_registered, of True cs] reach_problems_bounded [of cs]
  by (simp add: loop_head_def lastRanking_flush problems_bounded_def) (simp add: flush_def)

lemma loop_head_unfreeze: "loop_head s \<Longrightarrow> loop_head (unfreeze lt s)"
  by (simp add: loop_head_def registered_unfreeze lastRanking_unfreeze)

lemma loop_head_distinct: "loop_head s \<Longrightarrow> distinct (teamNames s)"
  by (simp add: loop_head_def registered_def)

lemma rank_in_of_mem:
  assumes "distinct (teamNames s)" "(n, r) \<in> set (calculateRanking s)"
  shows "rank_in (calculateRanking s) n = r"
proof -
  from assms(2) obtain i where i: "i < length (teamNames s)"
      "n = map fst (calculateRanking s) ! i" "r = int i + 1"
    unfolding ranking_mem_iff by blast
  with rank_in_nth [OF assms(1) i(1)] show ?thesis by simp
qed

lemma ranked_is_registered:
  assumes "(n, r) \<in> set (calculateRanking s)"
  shows "n \<in> set (teamNames s)"
proof -
  from assms have "n \<in> fst ` set (calculateRanking s)" by force
  then show ?thesis by (simp add: set_names_calculateRanking)
qed

subsection \<open>What a replay does to one entry\<close>

lemma foldl_replay_sub_solved: "solved ps \<Longrightarrow> foldl replay_sub ps subs = ps"
  by (induction subs) (simp_all add: replay_sub_def)

lemma foldl_replay_sub_rejected:
  assumes "\<not> solved ps" "\<forall>sub\<in>set subs. status sub \<noteq> ''Accepted''"
  shows "foldl replay_sub ps subs = ps\<lparr>wrongAttempts := wrongAttempts ps + int (length subs)\<rparr>"
  using assms
proof (induction subs arbitrary: ps)
  case Nil
  then show ?case by simp
next
  case (Cons sub subs)
  have "replay_sub ps sub = ps\<lparr>wrongAttempts := wrongAttempts ps + 1\<rparr>"
    using Cons.prems by (simp add: replay_sub_def)
  moreover have "\<not> solved (ps\<lparr>wrongAttempts := wrongAttempts ps + 1\<rparr>)"
    using Cons.prems by simp
  ultimately show ?case using Cons.IH [of "ps\<lparr>wrongAttempts := wrongAttempts ps + 1\<rparr>"] Cons.prems
    by simp
qed

lemma foldl_replay_sub_accepted:
  assumes "\<not> solved ps" "\<forall>sub\<in>set pre. status sub \<noteq> ''Accepted''" "status acc = ''Accepted''"
  shows "foldl replay_sub ps (pre @ acc # post) =
           ps\<lparr>wrongAttempts := wrongAttempts ps + int (length pre), solved := True,
              solveTime := time acc, wasSolvedBeforeFreeze := True\<rparr>"
proof -
  have "foldl replay_sub ps (pre @ acc # post) =
          foldl replay_sub (replay_sub (foldl replay_sub ps pre) acc) post"
    by simp
  also have "foldl replay_sub ps pre = ps\<lparr>wrongAttempts := wrongAttempts ps + int (length pre)\<rparr>"
    by (rule foldl_replay_sub_rejected [OF assms(1,2)])
  also have "replay_sub (ps\<lparr>wrongAttempts := wrongAttempts ps + int (length pre)\<rparr>) acc =
          ps\<lparr>wrongAttempts := wrongAttempts ps + int (length pre), solved := True,
              solveTime := time acc, wasSolvedBeforeFreeze := True\<rparr>"
    using assms(1,3) by (simp add: replay_sub_def)
  finally show ?thesis by (simp add: foldl_replay_sub_solved)
qed

text \<open>
  The replay in closed form: \<open>rejected\<close> are the submissions ahead of the first
  \<^verbatim>\<open>Accepted\<close> one.
\<close>

definition rejected :: "Submission list \<Rightarrow> Submission list" where
  "rejected subs = takeWhile (\<lambda>sub. status sub \<noteq> ''Accepted'') subs"

definition first_accepted :: "Submission list \<Rightarrow> Submission option" where
  "first_accepted subs = find (\<lambda>sub. status sub = ''Accepted'') subs"

lemma split_at_first_accepted:
  assumes "first_accepted subs = Some acc"
  shows "\<exists>post. subs = rejected subs @ acc # post" and "status acc = ''Accepted''"
proof -
  from assms have acc: "status acc = ''Accepted''"
    by (auto simp: first_accepted_def find_Some_iff)
  from assms have "acc \<in> set subs" by (auto simp: first_accepted_def find_Some_iff)
  then have ne: "dropWhile (\<lambda>sub. status sub \<noteq> ''Accepted'') subs \<noteq> []"
    using acc by (auto simp: dropWhile_eq_Nil_conv)
  have "find (\<lambda>sub. status sub = ''Accepted'') subs
          = (case dropWhile (\<lambda>sub. status sub \<noteq> ''Accepted'') subs of [] \<Rightarrow> None | x # _ \<Rightarrow> Some x)"
    by (induction subs) auto
  with assms ne obtain post where "dropWhile (\<lambda>sub. status sub \<noteq> ''Accepted'') subs = acc # post"
    by (auto simp: first_accepted_def split: list.splits)
  then have "subs = rejected subs @ acc # post"
    unfolding rejected_def by (metis takeWhile_dropWhile_id)
  then show "\<exists>post. subs = rejected subs @ acc # post" by blast
  from acc show "status acc = ''Accepted''" .
qed

lemma rejected_not_accepted: "\<forall>sub\<in>set (rejected subs). status sub \<noteq> ''Accepted''"
  unfolding rejected_def by (auto dest: set_takeWhileD)

lemma replay_closed_form:
  "replay ps =
     (if solved ps then ps\<lparr>frozenSubs := []\<rparr>
      else case first_accepted (frozenSubs ps) of
             None \<Rightarrow> ps\<lparr>wrongAttempts := wrongAttempts ps + int (length (frozenSubs ps)),
                        frozenSubs := []\<rparr>
           | Some acc \<Rightarrow>
               ps\<lparr>wrongAttempts := wrongAttempts ps + int (length (rejected (frozenSubs ps))),
                  solved := True, solveTime := time acc, wasSolvedBeforeFreeze := True,
                  frozenSubs := []\<rparr>)"
proof (cases "solved ps")
  case True
  then show ?thesis by (simp add: replay_def foldl_replay_sub_solved)
next
  case False
  show ?thesis
  proof (cases "first_accepted (frozenSubs ps)")
    case None
    then have "\<forall>sub\<in>set (frozenSubs ps). status sub \<noteq> ''Accepted''"
      by (auto simp: first_accepted_def find_None_iff)
    from foldl_replay_sub_rejected [OF False this] False None show ?thesis
      by (simp add: replay_def)
  next
    case (Some acc)
    from split_at_first_accepted [OF Some] obtain post
      where sp: "frozenSubs ps = rejected (frozenSubs ps) @ acc # post" and acc: "status acc = ''Accepted''"
      by blast
    have "foldl replay_sub ps (rejected (frozenSubs ps) @ acc # post) =
           ps\<lparr>wrongAttempts := wrongAttempts ps + int (length (rejected (frozenSubs ps))),
              solved := True, solveTime := time acc, wasSolvedBeforeFreeze := True\<rparr>"
      by (rule foldl_replay_sub_accepted [OF False rejected_not_accepted acc])
    with sp have "foldl replay_sub ps (frozenSubs ps) =
           ps\<lparr>wrongAttempts := wrongAttempts ps + int (length (rejected (frozenSubs ps))),
              solved := True, solveTime := time acc, wasSolvedBeforeFreeze := True\<rparr>"
      by simp
    with False Some show ?thesis by (simp add: replay_def)
  qed
qed

subsection \<open>What a reveal step does to the ranking\<close>

lemma wrap32_id: "- 2147483648 \<le> x \<Longrightarrow> x < 2147483648 \<Longrightarrow> wrap32 x = x"
  by (simp add: wrap32_def)

definition counted_at :: "Team \<Rightarrow> string \<Rightarrow> bool" where
  "counted_at t p = (case problems t p of None \<Rightarrow> False | Some ps \<Rightarrow> counted ps)"

lemma info_solved_rank_step:
  "info_solved (rank_step t info p) =
     (if counted_at t p then wrap32 (info_solved info + 1) else info_solved info)"
  by (simp add: rank_step_def counted_at_def split: option.splits)

lemma info_solved_foldl:
  assumes "0 \<le> info_solved info" "info_solved info + int (length ps) < 2147483648"
  shows "info_solved (foldl (rank_step t) info ps) =
           info_solved info + int (length (filter (counted_at t) ps))"
  using assms
proof (induction ps arbitrary: info)
  case Nil
  then show ?case by simp
next
  case (Cons p ps)
  show ?case
  proof (cases "counted_at t p")
    case True
    have w: "wrap32 (info_solved info + 1) = info_solved info + 1"
      using Cons.prems by (intro wrap32_id) simp_all
    have "info_solved (foldl (rank_step t) (rank_step t info p) ps) =
            info_solved (rank_step t info p) + int (length (filter (counted_at t) ps))"
      using Cons.prems True w by (intro Cons.IH) (simp_all add: info_solved_rank_step)
    with True w show ?thesis by (simp add: info_solved_rank_step)
  next
    case False
    have "info_solved (foldl (rank_step t) (rank_step t info p) ps) =
            info_solved (rank_step t info p) + int (length (filter (counted_at t) ps))"
      using Cons.prems False by (intro Cons.IH) (simp_all add: info_solved_rank_step)
    with False show ?thesis by (simp add: info_solved_rank_step)
  qed
qed

lemma info_solved_count:
  assumes "length (problemList s) < 2147483648"
  shows "info_solved (getTeamRankInfo s n) =
           int (length (filter (counted_at (team_at s n)) (problemList s)))"
proof -
  have "info_solved (foldl (rank_step (team_at s n))
          \<lparr>info_name = n, info_solved = 0, info_penalty = 0, info_times = []\<rparr> (problemList s))
        = 0 + int (length (filter (counted_at (team_at s n)) (problemList s)))"
    using assms
    by (subst info_solved_foldl) simp_all
  then show ?thesis by (simp add: getTeamRankInfo_def Let_def)
qed

lemma filter_length_less:
  assumes "\<And>x. P x \<Longrightarrow> Q x" "x0 \<in> set xs" "Q x0" "\<not> P x0"
  shows "length (filter P xs) < length (filter Q xs)"
  using assms(2)
proof (induction xs)
  case Nil
  then show ?case by simp
next
  case (Cons x xs)
  have le: "length (filter P xs) \<le> length (filter Q xs)"
  proof (induction xs)
    case Nil
    then show ?case by simp
  next
    case (Cons y ys)
    then show ?case using assms(1) [of y] by auto
  qed
  show ?case
  proof (cases "x = x0")
    case True
    with le assms(3,4) show ?thesis by simp
  next
    case False
    with Cons have "length (filter P xs) < length (filter Q xs)" by simp
    then show ?thesis using assms(1) [of x] by auto
  qed
qed

lemma getTeamRankInfo_unfreeze_other:
  "m \<noteq> lt \<Longrightarrow> getTeamRankInfo (unfreeze lt s) m = getTeamRankInfo s m"
  by (simp add: getTeamRankInfo_def team_at_unfreeze_other)

lemma rank_step_unfreeze_same:
  assumes "problems t up = Some ps"
    and "counted ps' = counted ps"
    and "counted ps \<longrightarrow> solveTime ps' = solveTime ps \<and> wrongAttempts ps' = wrongAttempts ps"
  shows "rank_step (t\<lparr>problems := (problems t)(up \<mapsto> ps')\<rparr>) info p = rank_step t info p"
  using assms by (simp add: rank_step_def)

lemma foldl_rank_step_cong:
  assumes "\<And>info p. rank_step t' info p = rank_step t info p"
  shows "foldl (rank_step t') info ps = foldl (rank_step t) info ps"
  by (induction ps arbitrary: info) (simp_all add: assms)

text \<open>
  The revealed team's rank data either stay as they are or count one more solved problem
  (more, if the problem list names the problem more than once).
\<close>

lemma getTeamRankInfo_unfreeze_same:
  assumes "team_hidden s lt" "length (problemList s) < 2147483648"
  shows "getTeamRankInfo (unfreeze lt s) lt = getTeamRankInfo s lt
       \<or> info_solved (getTeamRankInfo s lt) < info_solved (getTeamRankInfo (unfreeze lt s) lt)"
proof -
  let ?t = "team_at s lt"
  let ?up = "unfreeze_prob ?t (problemList s)"
  let ?ps = "problem_at ?t ?up"
  let ?t' = "?t\<lparr>problems := (problems ?t)(?up \<mapsto> replay ?ps)\<rparr>"
  from unfreeze_prob_hidden [OF assms(1)]
  have up: "?up \<in> set (problemList s)" and hf: "has_frozen ?t ?up" by simp_all
  from hf have st: "problems ?t ?up = Some ?ps"
    by (simp add: has_frozen_def problem_at_def split: option.splits)
  have t': "team_at (unfreeze lt s) lt = ?t'" by (rule team_at_unfreeze_same)
  show ?thesis
  proof (cases "\<not> solved ?ps \<and> first_accepted (frozenSubs ?ps) \<noteq> None")
    case True
    then obtain acc where "first_accepted (frozenSubs ?ps) = Some acc" by auto
    with True have c': "counted (replay ?ps)"
      by (simp add: replay_closed_form counted_def)
    from True have c: "\<not> counted ?ps" by (simp add: counted_def)
    have "length (filter (counted_at ?t) (problemList s))
            < length (filter (counted_at ?t') (problemList s))"
    proof (rule filter_length_less [OF _ up])
      fix p assume "counted_at ?t p"
      with c st show "counted_at ?t' p" by (auto simp: counted_at_def split: if_splits)
    next
      show "counted_at ?t' ?up" using c' by (simp add: counted_at_def)
      show "\<not> counted_at ?t ?up" using c st by (simp add: counted_at_def)
    qed
    then have "info_solved (getTeamRankInfo s lt) < info_solved (getTeamRankInfo (unfreeze lt s) lt)"
      using assms(2) by (simp add: info_solved_count t')
    then show ?thesis ..
  next
    case False
    have same: "counted (replay ?ps) = counted ?ps
        \<and> (counted ?ps \<longrightarrow> solveTime (replay ?ps) = solveTime ?ps
                            \<and> wrongAttempts (replay ?ps) = wrongAttempts ?ps)"
    proof (cases "solved ?ps")
      case True
      then show ?thesis by (simp add: replay_closed_form counted_def)
    next
      case ns: False
      with False have "first_accepted (frozenSubs ?ps) = None" by simp
      with ns show ?thesis by (simp add: replay_closed_form counted_def)
    qed
    have "rank_step ?t' info p = rank_step ?t info p" for info p
      using rank_step_unfreeze_same [OF st] same by blast
    then have "foldl (rank_step ?t') info (problemList s) = foldl (rank_step ?t) info (problemList s)"
      for info by (rule foldl_rank_step_cong)
    then have "getTeamRankInfo (unfreeze lt s) lt = getTeamRankInfo s lt"
      by (simp add: getTeamRankInfo_def t')
    then show ?thesis ..
  qed
qed

lemma before_unfreeze:
  assumes "team_hidden s lt" "length (problemList s) < 2147483648"
  shows "m \<noteq> lt \<Longrightarrow> n \<noteq> lt \<Longrightarrow> before (unfreeze lt s) m n = before s m n"
    and "before (unfreeze lt s) m lt \<Longrightarrow> before s m lt"
    and "before s lt n \<Longrightarrow> before (unfreeze lt s) lt n"
proof -
  note C = getTeamRankInfo_unfreeze_same [OF assms]
  have imp: "getTeamRankInfo (unfreeze lt s) lt \<noteq> getTeamRankInfo s lt \<Longrightarrow>
             better (getTeamRankInfo (unfreeze lt s) lt) (getTeamRankInfo s lt)"
    using C by (auto simp: better_def)
  show "m \<noteq> lt \<Longrightarrow> n \<noteq> lt \<Longrightarrow> before (unfreeze lt s) m n = before s m n"
    by (simp add: before_def getTeamRankInfo_unfreeze_other)
  show "before s m lt" if b: "before (unfreeze lt s) m lt"
  proof -
    from b have "m \<noteq> lt" using before_irrefl by blast
    with b have 1: "better (getTeamRankInfo s m) (getTeamRankInfo (unfreeze lt s) lt)"
      by (simp add: before_def getTeamRankInfo_unfreeze_other)
    show ?thesis
    proof (cases "getTeamRankInfo (unfreeze lt s) lt = getTeamRankInfo s lt")
      case True
      with 1 show ?thesis by (simp add: before_def)
    next
      case False
      from better_trans [OF 1 imp [OF False]] show ?thesis by (simp add: before_def)
    qed
  qed
  show "before (unfreeze lt s) lt n" if b: "before s lt n"
  proof -
    from b have "n \<noteq> lt" using before_irrefl by blast
    with b have 1: "better (getTeamRankInfo s lt) (getTeamRankInfo (unfreeze lt s) n)"
      by (simp add: before_def getTeamRankInfo_unfreeze_other)
    show ?thesis
    proof (cases "getTeamRankInfo (unfreeze lt s) lt = getTeamRankInfo s lt")
      case True
      with 1 show ?thesis by (simp add: before_def)
    next
      case False
      from better_trans [OF imp [OF False] 1] show ?thesis by (simp add: before_def)
    qed
  qed
qed

lemma rank_unfreeze_le:
  assumes "loop_head s" "scan_frozen s = (True, lt, lr)"
  shows "rank_in (calculateRanking s) lt = lr"
    and "rank_in (calculateRanking (unfreeze lt s)) lt \<le> lr"
    and "lt \<in> set (teamNames s)"
proof -
  from assms(1) have fr: "lastRanking s = calculateRanking s"
    and d: "distinct (teamNames s)" and len: "length (problemList s) < 2147483648"
    by (simp_all add: loop_head_def registered_def)
  note F = scan_frozen_fresh [OF fr assms(2)]
  from F(1) fr have mem: "(lt, lr) \<in> set (calculateRanking s)" by simp
  then show reg: "lt \<in> set (teamNames s)" by (rule ranked_is_registered)
  from rank_in_of_mem [OF d mem] show old: "rank_in (calculateRanking s) lt = lr" .
  have "{m \<in> set (teamNames s). before (unfreeze lt s) m lt} \<subseteq> {m \<in> set (teamNames s). before s m lt}"
    using before_unfreeze(2) [OF F(2) len] by blast
  then have "card {m \<in> set (teamNames s). before (unfreeze lt s) m lt}
               \<le> card {m \<in> set (teamNames s). before s m lt}"
    by (intro card_mono) simp_all
  moreover have "rank_in (calculateRanking (unfreeze lt s)) lt
        = int (card {m \<in> set (teamNames (unfreeze lt s)). before (unfreeze lt s) m lt}) + 1"
    using d reg by (intro rank_in_card) simp_all
  moreover have "rank_in (calculateRanking s) lt = int (card {m \<in> set (teamNames s). before s m lt}) + 1"
    using d reg by (intro rank_in_card)
  ultimately show "rank_in (calculateRanking (unfreeze lt s)) lt \<le> lr"
    using old by simp
qed

section \<open>A scroll in which the revealed team overtakes another\<close>

text \<open>
  Team \<open>a\<close> solves the only problem at 100 after two wrong attempts. After the freeze team
  \<open>b\<close> submits a wrong attempt and then two accepted solutions. \<open>overtake\<close> is the state at
  the head of the loop of \<^verbatim>\<open>scroll\<close>, \<open>overtaken\<close> the state after the one reveal step.
\<close>

definition overtake :: ICPCSystem where
  "overtake =
     snd (flush True
       (exec [ADDTEAM ''a'', ADDTEAM ''b'', START 300 1,
              SUBMIT ''A'' ''a'' ''Wrong_Answer'' 50, SUBMIT ''A'' ''a'' ''Wrong_Answer'' 60,
              SUBMIT ''A'' ''a'' ''Accepted'' 100, FREEZE,
              SUBMIT ''A'' ''b'' ''Wrong_Answer'' 110, SUBMIT ''A'' ''b'' ''Accepted'' 115,
              SUBMIT ''A'' ''b'' ''Accepted'' 118] ICPCSystem0))"

definition overtaken :: ICPCSystem where
  "overtaken = unfreeze ''b'' overtake"

lemma overtake_lists:
  "teamNames overtake = [''a'', ''b'']" "problemList overtake = [''A'']"
  by (simp_all add: overtake_def run_simps problem_letters)

lemma overtake_a:
  "problems (team_at overtake ''a'') ''A''
     = Some \<lparr>solved = True, solveTime = 100, wrongAttempts = 2, frozenSubs = [],
             wasSolvedBeforeFreeze = True\<rparr>"
  by (simp add: overtake_def run_simps)

lemma overtake_b:
  "problems (team_at overtake ''b'') ''A''
     = Some \<lparr>solved = False, solveTime = 0, wrongAttempts = 0,
             frozenSubs = [\<lparr>problem = ''A'', status = ''Wrong_Answer'', time = 110\<rparr>,
                           \<lparr>problem = ''A'', status = ''Accepted'', time = 115\<rparr>,
                           \<lparr>problem = ''A'', status = ''Accepted'', time = 118\<rparr>],
             wasSolvedBeforeFreeze = False\<rparr>"
  by (simp add: overtake_def run_simps)

lemma overtake_infos:
  "getTeamRankInfo overtake ''a''
     = \<lparr>info_name = ''a'', info_solved = 1, info_penalty = 140, info_times = [100]\<rparr>"
  "getTeamRankInfo overtake ''b''
     = \<lparr>info_name = ''b'', info_solved = 0, info_penalty = 0, info_times = []\<rparr>"
  by (simp_all add: getTeamRankInfo_def overtake_lists overtake_a overtake_b rank_step_def
        counted_def wrap32_def)

lemma overtake_ranking: "calculateRanking overtake = [(''a'', 1), (''b'', 2)]"
proof -
  have "rank_indices overtake = [0, 1]"
    by (simp add: rank_indices_def overtake_lists overtake_infos sort_by_def better_def)
  then show ?thesis by (simp add: calculateRanking_def overtake_lists upt_rec)
qed

lemma overtake_cached: "lastRanking overtake = [(''a'', 1), (''b'', 2)]"
  using lastRanking_flush [of True] overtake_ranking by (simp add: overtake_def)

lemma overtake_scan: "scan_frozen overtake = (True, ''b'', 2)"
  by (simp add: scan_frozen_def scan_step_def overtake_cached overtake_lists has_frozen_def
        overtake_a overtake_b)

lemma overtake_problem: "unfreeze_prob (team_at overtake ''b'') (problemList overtake) = ''A''"
  by (simp add: unfreeze_prob_def overtake_lists has_frozen_def overtake_b)

lemma overtaken_b:
  "problem_at (team_at overtaken ''b'') ''A''
     = \<lparr>solved = True, solveTime = 115, wrongAttempts = 1, frozenSubs = [],
        wasSolvedBeforeFreeze = True\<rparr>"
  using team_at_unfreeze_same [of "''b''" overtake]
  by (simp add: overtaken_def overtake_problem problem_at_def overtake_b replay_def replay_sub_def)

lemma overtaken_infos:
  "getTeamRankInfo overtaken ''a''
     = \<lparr>info_name = ''a'', info_solved = 1, info_penalty = 140, info_times = [100]\<rparr>"
  "getTeamRankInfo overtaken ''b''
     = \<lparr>info_name = ''b'', info_solved = 1, info_penalty = 135, info_times = [115]\<rparr>"
proof -
  show "getTeamRankInfo overtaken ''a''
     = \<lparr>info_name = ''a'', info_solved = 1, info_penalty = 140, info_times = [100]\<rparr>"
    by (simp add: overtaken_def getTeamRankInfo_unfreeze_other overtake_infos)
  have "problems (team_at overtaken ''b'') ''A''
     = Some \<lparr>solved = True, solveTime = 115, wrongAttempts = 1, frozenSubs = [],
             wasSolvedBeforeFreeze = True\<rparr>"
    using team_at_unfreeze_same [of "''b''" overtake]
    by (simp add: overtaken_def overtake_problem problem_at_def overtake_b replay_def replay_sub_def)
  then show "getTeamRankInfo overtaken ''b''
     = \<lparr>info_name = ''b'', info_solved = 1, info_penalty = 135, info_times = [115]\<rparr>"
    by (simp add: getTeamRankInfo_def overtaken_def overtake_lists rank_step_def counted_def
          wrap32_def)
qed

lemma overtaken_ranking: "lastRanking overtaken = [(''b'', 1), (''a'', 2)]"
proof -
  have n: "teamNames overtaken = [''a'', ''b'']" by (simp add: overtaken_def overtake_lists)
  have "rank_indices overtaken = [1, 0]"
    by (simp add: rank_indices_def n overtaken_infos sort_by_def better_def)
  then have "calculateRanking overtaken = [(''b'', 1), (''a'', 2)]"
    by (simp add: calculateRanking_def n upt_rec)
  then show ?thesis by (simp add: overtaken_def lastRanking_unfreeze)
qed

text \<open>
  Claim C7. The loop of \<^verbatim>\<open>scroll\<close> starts in a state \<open>loop_head\<close> and every reveal step
  leads to one. In such a state the rank that the scan reports for the chosen team is its
  rank in \<^verbatim>\<open>lastRanking\<close>, and after the reveal step the team's rank in the recomputed
  \<^verbatim>\<open>lastRanking\<close> is at most that rank.
\<close>

theorem reveal_never_worsens:
  "loop_head (snd (flush True (exec cs ICPCSystem0)))
   \<and> (\<forall>s lt lr. loop_head s \<and> scan_frozen s = (True, lt, lr) \<longrightarrow>
        loop_head (unfreeze lt s)
        \<and> rank_in (lastRanking s) lt = lr
        \<and> rank_in (lastRanking (unfreeze lt s)) lt \<le> rank_in (lastRanking s) lt)"
proof -
  have "loop_head (unfreeze lt s)
        \<and> rank_in (lastRanking s) lt = lr
        \<and> rank_in (lastRanking (unfreeze lt s)) lt \<le> rank_in (lastRanking s) lt"
    if H: "loop_head s" and sc: "scan_frozen s = (True, lt, lr)" for s lt lr
  proof -
    from H have fr: "lastRanking s = calculateRanking s" by (simp add: loop_head_def)
    from rank_unfreeze_le(1,2) [OF H sc] loop_head_unfreeze [OF H, of lt] fr
    show ?thesis by (simp add: lastRanking_unfreeze)
  qed
  with loop_head_start [of cs] show ?thesis by blast
qed

theorem reveal_never_worsens_witness:
  "loop_head overtake \<and> scan_frozen overtake = (True, ''b'', 2)
   \<and> rank_in (lastRanking overtake) ''b'' = 2
   \<and> rank_in (lastRanking (unfreeze ''b'' overtake)) ''b'' = 1
   \<and> rank_in (lastRanking (unfreeze ''b'' overtake)) ''b'' \<le> rank_in (lastRanking overtake) ''b''"
proof -
  note T = reveal_never_worsens
    [of "[ADDTEAM ''a'', ADDTEAM ''b'', START 300 1,
              SUBMIT ''A'' ''a'' ''Wrong_Answer'' 50, SUBMIT ''A'' ''a'' ''Wrong_Answer'' 60,
              SUBMIT ''A'' ''a'' ''Accepted'' 100, FREEZE,
              SUBMIT ''A'' ''b'' ''Wrong_Answer'' 110, SUBMIT ''A'' ''b'' ''Accepted'' 115,
              SUBMIT ''A'' ''b'' ''Accepted'' 118]", folded overtake_def]
  from T have H: "loop_head overtake" by (rule conjunct1)
  from T [THEN conjunct2, rule_format, OF conjI [OF H overtake_scan]]
  have "rank_in (lastRanking overtake) ''b'' = 2"
    and "rank_in (lastRanking (unfreeze ''b'' overtake)) ''b'' \<le> rank_in (lastRanking overtake) ''b''"
    by simp_all
  moreover have "rank_in (lastRanking (unfreeze ''b'' overtake)) ''b'' = 1"
    using overtaken_ranking by (simp add: overtaken_def rank_in_def)
  ultimately show ?thesis using H overtake_scan by simp
qed

subsection \<open>The team named in a rank-change line\<close>

lemma displaced_team:
  assumes H: "loop_head s" and sc: "scan_frozen s = (True, lt, lr)"
    and lt: "rank_in (calculateRanking (unfreeze lt s)) lt < lr"
  defines "s' \<equiv> unfreeze lt s"
  defines "newRank \<equiv> rank_in (calculateRanking s') lt"
  defines "u \<equiv> team_ranked (calculateRanking s') (newRank + 1)"
  shows "(u, newRank + 1) \<in> set (calculateRanking s')"
    and "(u, newRank) \<in> set (calculateRanking s)"
    and "u \<noteq> lt"
proof -
  from H have fr: "lastRanking s = calculateRanking s"
    and d: "distinct (teamNames s)" and len: "length (problemList s) < 2147483648"
    by (simp_all add: loop_head_def registered_def)
  have names': "teamNames s' = teamNames s" by (simp add: s'_def)
  have d': "distinct (teamNames s')" using d names' by simp
  note F = scan_frozen_fresh [OF fr sc]
  note B = before_unfreeze [OF F(2) len]
  from rank_unfreeze_le [OF H sc] have old: "rank_in (calculateRanking s) lt = lr"
    and reg: "lt \<in> set (teamNames s)" by simp_all
  let ?L' = "map fst (calculateRanking s')"
  obtain i where i: "i < length (teamNames s')" "?L' ! i = lt"
    using reg names' ranked_name_index [of lt s'] by auto
  from rank_in_nth [OF d' i(1)] i(2) have nr: "newRank = int i + 1"
    by (simp add: newRank_def)
  from F(1) fr have "(lt, lr) \<in> set (calculateRanking s)" by simp
  then obtain j where j: "j < length (teamNames s)" "lr = int j + 1"
    unfolding ranking_mem_iff by blast
  from lt nr j have si: "Suc i < length (teamNames s')"
    by (simp add: newRank_def s'_def)
  have u: "u = ?L' ! Suc i"
    using team_ranked_nth [OF si] nr by (simp add: u_def)
  have mem': "(u, newRank + 1) \<in> set (calculateRanking s')"
    unfolding ranking_mem_iff using si u nr by (intro exI [of _ "Suc i"]) simp
  then show "(u, newRank + 1) \<in> set (calculateRanking s')" .
  have ureg: "u \<in> set (teamNames s)"
    using ranked_is_registered [OF mem'] names' by simp
  have dL: "distinct ?L'" by (rule distinct_ranking_names [OF d'])
  have li: "i < length ?L'" and lsi: "Suc i < length ?L'"
    using si by (simp_all add: length_calculateRanking)
  have "(?L' ! i = ?L' ! Suc i) = (i = Suc i)"
    by (rule nth_eq_iff_index_eq [OF dL li lsi])
  then have "?L' ! i \<noteq> ?L' ! Suc i" by (simp only: n_not_Suc_n simp_thms)
  with i(2) u show ne: "u \<noteq> lt" by simp
  have memlt: "(lt, newRank) \<in> set (calculateRanking s')"
    using ranked_pair [OF d', of lt] reg names' by (simp add: newRank_def)
  have ahead': "before s' lt u"
    using rank_order_iff [OF d' memlt mem'] by simp
  let ?A = "{m \<in> set (teamNames s). before s m u}"
  let ?A' = "{m \<in> set (teamNames s). before s' m u}"
  have ru': "newRank + 1 = int (card ?A') + 1"
    using rank_in_card [OF d', of u] rank_in_of_mem [OF d' mem'] ureg names' by simp
  have ru: "rank_in (calculateRanking s) u = int (card ?A) + 1"
    by (rule rank_in_card [OF d ureg])
  have eqv: "before s' m u = before s m u" if "m \<noteq> lt" for m
    using B(1) [OF that ne] by (simp add: s'_def)
  have notin: "lt \<notin> ?A"
  proof
    assume "lt \<in> ?A"
    then have b: "before s lt u" by simp
    have "?A' = ?A"
    proof (rule set_eqI)
      fix m show "(m \<in> ?A') = (m \<in> ?A)"
      proof (cases "m = lt")
        case True
        with b ahead' reg show ?thesis by simp
      next
        case False
        with eqv show ?thesis by simp
      qed
    qed
    with ru ru' have "rank_in (calculateRanking s) u = newRank + 1" by simp
    moreover have "rank_in (calculateRanking s) lt < rank_in (calculateRanking s) u"
      using rank_order_iff [OF d ranked_pair [OF d reg] ranked_pair [OF d ureg]] b by simp
    ultimately show False using old lt by (simp add: newRank_def s'_def)
  qed
  have "?A' = insert lt ?A"
  proof (rule set_eqI)
    fix m show "(m \<in> ?A') = (m \<in> insert lt ?A)"
    proof (cases "m = lt")
      case True
      with ahead' reg show ?thesis by simp
    next
      case False
      with eqv show ?thesis by simp
    qed
  qed
  then have "card ?A' = Suc (card ?A)" using notin by simp
  with ru ru' have "rank_in (calculateRanking s) u = newRank" by simp
  with ranked_pair [OF d ureg] show "(u, newRank) \<in> set (calculateRanking s)" by simp
qed


lemma scroll_loop_step:
  assumes "scan_frozen s = (True, lt, lr)"
  shows "fst (scroll_loop s) = notify lt lr (unfreeze lt s) @ fst (scroll_loop (unfreeze lt s))"
  using assms by (simp add: scroll_loop.simps [of s])

lemma overtake_notify: "notify ''b'' 2 (unfreeze ''b'' overtake) = [RankChange ''b'' ''a'' 1 135]"
  using overtaken_ranking overtaken_infos(2)
  by (simp add: notify_def overtaken_def [symmetric] rank_in_def team_ranked_def)

text \<open>
  Claim C4, as stated, fails: the team named is not the one that held rank
  \<open>newRank + 1\<close> before the step. In the run \<open>overtake\<close> team \<open>b\<close> moves from rank 2 to
  rank 1; the line names \<open>a\<close>, and rank \<open>1 + 1\<close> was held by \<open>b\<close> itself.
\<close>

theorem rank_change_names_old_occupant_counterexample:
  "scan_frozen overtake = (True, ''b'', 2)
   \<and> rank_in (lastRanking (unfreeze ''b'' overtake)) ''b'' = 1
   \<and> notify ''b'' 2 (unfreeze ''b'' overtake) = [RankChange ''b'' ''a'' 1 135]
   \<and> team_ranked (lastRanking overtake) (1 + 1) = ''b''"
  using overtake_scan overtake_notify overtaken_ranking overtake_cached
  by (simp add: overtaken_def [symmetric] rank_in_def team_ranked_def)

text \<open>
  Claim C4, amended. The loop of \<^verbatim>\<open>scroll\<close> starts in a state \<open>loop_head\<close> and every reveal
  step leads to one. In such a state the rank reported by the scan is the chosen team's
  rank in \<^verbatim>\<open>lastRanking\<close>, and what the step writes is \<open>notify\<close> on the state after the
  replay and the recomputation. It writes nothing when the team's new rank is not smaller
  than the old one. When it is smaller it writes one line with the team, a team \<open>u\<close>, and
  the team's solved count and penalty in the new state; \<open>u\<close> is another team, it has rank
  \<open>newRank + 1\<close> in the new ranking and it had rank \<open>newRank\<close> in the old one: the team
  that the revealed team displaced from its new rank.
\<close>

theorem rank_change_notification:
  "loop_head (snd (flush True (exec cs ICPCSystem0)))
   \<and> (\<forall>s lt lr. loop_head s \<and> scan_frozen s = (True, lt, lr) \<longrightarrow>
        loop_head (unfreeze lt s)
        \<and> rank_in (lastRanking s) lt = lr
        \<and> fst (scroll_loop s) = notify lt lr (unfreeze lt s) @ fst (scroll_loop (unfreeze lt s))
        \<and> (\<not> rank_in (lastRanking (unfreeze lt s)) lt < lr \<longrightarrow>
              notify lt lr (unfreeze lt s) = [])
        \<and> (rank_in (lastRanking (unfreeze lt s)) lt < lr \<longrightarrow>
              (\<exists>u. notify lt lr (unfreeze lt s)
                      = [RankChange lt u (info_solved (getTeamRankInfo (unfreeze lt s) lt))
                           (info_penalty (getTeamRankInfo (unfreeze lt s) lt))]
                 \<and> (u, rank_in (lastRanking (unfreeze lt s)) lt + 1)
                      \<in> set (lastRanking (unfreeze lt s))
                 \<and> (u, rank_in (lastRanking (unfreeze lt s)) lt) \<in> set (lastRanking s)
                 \<and> u \<noteq> lt)))"
proof -
  have "loop_head (unfreeze lt s)
        \<and> rank_in (lastRanking s) lt = lr
        \<and> fst (scroll_loop s) = notify lt lr (unfreeze lt s) @ fst (scroll_loop (unfreeze lt s))
        \<and> (\<not> rank_in (lastRanking (unfreeze lt s)) lt < lr \<longrightarrow>
              notify lt lr (unfreeze lt s) = [])
        \<and> (rank_in (lastRanking (unfreeze lt s)) lt < lr \<longrightarrow>
              (\<exists>u. notify lt lr (unfreeze lt s)
                      = [RankChange lt u (info_solved (getTeamRankInfo (unfreeze lt s) lt))
                           (info_penalty (getTeamRankInfo (unfreeze lt s) lt))]
                 \<and> (u, rank_in (lastRanking (unfreeze lt s)) lt + 1)
                      \<in> set (lastRanking (unfreeze lt s))
                 \<and> (u, rank_in (lastRanking (unfreeze lt s)) lt) \<in> set (lastRanking s)
                 \<and> u \<noteq> lt))"
    if H: "loop_head s" and sc: "scan_frozen s = (True, lt, lr)" for s lt lr
  proof -
    from H have fr: "lastRanking s = calculateRanking s" by (simp add: loop_head_def)
    have fr': "lastRanking (unfreeze lt s) = calculateRanking (unfreeze lt s)"
      by (rule lastRanking_unfreeze)
    have 1: "loop_head (unfreeze lt s)" by (rule loop_head_unfreeze [OF H])
    have 2: "rank_in (lastRanking s) lt = lr"
      using rank_unfreeze_le(1) [OF H sc] fr by simp
    have 3: "fst (scroll_loop s) = notify lt lr (unfreeze lt s) @ fst (scroll_loop (unfreeze lt s))"
      by (rule scroll_loop_step [OF sc])
    have 4: "notify lt lr (unfreeze lt s) = []"
      if "\<not> rank_in (lastRanking (unfreeze lt s)) lt < lr"
      using that by (simp add: notify_def Let_def)
    have 5: "\<exists>u. notify lt lr (unfreeze lt s)
                      = [RankChange lt u (info_solved (getTeamRankInfo (unfreeze lt s) lt))
                           (info_penalty (getTeamRankInfo (unfreeze lt s) lt))]
                 \<and> (u, rank_in (lastRanking (unfreeze lt s)) lt + 1)
                      \<in> set (lastRanking (unfreeze lt s))
                 \<and> (u, rank_in (lastRanking (unfreeze lt s)) lt) \<in> set (lastRanking s)
                 \<and> u \<noteq> lt"
      if less: "rank_in (lastRanking (unfreeze lt s)) lt < lr"
    proof -
      from less fr' have less': "rank_in (calculateRanking (unfreeze lt s)) lt < lr" by simp
      note D = displaced_team [OF H sc less']
      let ?u = "team_ranked (lastRanking (unfreeze lt s))
                  (rank_in (lastRanking (unfreeze lt s)) lt + 1)"
      have "notify lt lr (unfreeze lt s)
              = [RankChange lt ?u (info_solved (getTeamRankInfo (unfreeze lt s) lt))
                   (info_penalty (getTeamRankInfo (unfreeze lt s) lt))]"
        using less by (simp add: notify_def Let_def)
      with D show ?thesis unfolding fr fr' by blast
    qed
    from 1 2 3 4 5 show ?thesis by blast
  qed
  with loop_head_start [of cs] show ?thesis by blast
qed

theorem rank_change_notification_witness:
  "loop_head overtake \<and> scan_frozen overtake = (True, ''b'', 2)
   \<and> rank_in (lastRanking overtake) ''b'' = 2
   \<and> rank_in (lastRanking (unfreeze ''b'' overtake)) ''b'' = 1
   \<and> notify ''b'' 2 (unfreeze ''b'' overtake) = [RankChange ''b'' ''a'' 1 135]
   \<and> (''a'', 2) \<in> set (lastRanking (unfreeze ''b'' overtake))
   \<and> (''a'', 1) \<in> set (lastRanking overtake)
   \<and> fst (scroll_loop overtake)
       = [RankChange ''b'' ''a'' 1 135] @ fst (scroll_loop (unfreeze ''b'' overtake))"
proof -
  note T = rank_change_notification
    [of "[ADDTEAM ''a'', ADDTEAM ''b'', START 300 1,
              SUBMIT ''A'' ''a'' ''Wrong_Answer'' 50, SUBMIT ''A'' ''a'' ''Wrong_Answer'' 60,
              SUBMIT ''A'' ''a'' ''Accepted'' 100, FREEZE,
              SUBMIT ''A'' ''b'' ''Wrong_Answer'' 110, SUBMIT ''A'' ''b'' ''Accepted'' 115,
              SUBMIT ''A'' ''b'' ''Accepted'' 118]", folded overtake_def]
  from T have H: "loop_head overtake" by (rule conjunct1)
  note S = T [THEN conjunct2, rule_format, OF conjI [OF H overtake_scan]]
  have new: "rank_in (lastRanking (unfreeze ''b'' overtake)) ''b'' = 1"
    using overtaken_ranking by (simp add: overtaken_def rank_in_def)
  from S have old: "rank_in (lastRanking overtake) ''b'' = 2" by simp
  from S have loop: "fst (scroll_loop overtake)
       = notify ''b'' 2 (unfreeze ''b'' overtake) @ fst (scroll_loop (unfreeze ''b'' overtake))"
    by simp
  have m: "(''a'', 2) \<in> set (lastRanking (unfreeze ''b'' overtake))"
      "(''a'', 1) \<in> set (lastRanking overtake)"
    using overtaken_ranking overtake_cached by (simp_all add: overtaken_def)
  from H overtake_scan old new overtake_notify m loop show ?thesis by simp
qed

subsection \<open>Which queue a reveal step takes\<close>

lemma team_hidden_iff:
  "team_hidden s n = (\<exists>p\<in>set (problemList s). frozenSubs (problem_at (team_at s n) p) \<noteq> [])"
  by (simp add: team_hidden_def list_ex_iff has_frozen_problem_at)

lemma scan_frozen_flag:
  assumes "lastRanking s = calculateRanking s"
  shows "fst (scan_frozen s) = (\<exists>n\<in>set (teamNames s). team_hidden s n)"
proof -
  obtain hf lt lr where sc: "scan_frozen s = (hf, lt, lr)" by (cases "scan_frozen s")
  have "hf = (\<exists>p\<in>set (calculateRanking s). team_hidden s (fst p))"
    using scan_frozen_props(1) [OF sc] assms by simp
  also have "\<dots> = (\<exists>n\<in>fst ` set (calculateRanking s). team_hidden s n)" by blast
  finally show ?thesis using sc by (simp add: set_names_calculateRanking)
qed

lemma unfreeze_prob_first:
  assumes "team_hidden s lt"
  shows "\<exists>k<length (problemList s).
           unfreeze_prob (team_at s lt) (problemList s) = problemList s ! k
           \<and> has_frozen (team_at s lt) (problemList s ! k)
           \<and> (\<forall>j<k. \<not> has_frozen (team_at s lt) (problemList s ! j))"
proof -
  from assms obtain p where p: "find (has_frozen (team_at s lt)) (problemList s) = Some p"
    using find_has_frozen_None [of "team_at s lt" "problemList s"]
    by (auto simp: team_hidden_def)
  then have "unfreeze_prob (team_at s lt) (problemList s) = p" by (simp add: unfreeze_prob_def)
  with p show ?thesis unfolding find_Some_iff by blast
qed

lemma problem_at_unfreeze_same:
  "problem_at (team_at (unfreeze lt s) lt) (unfreeze_prob (team_at s lt) (problemList s))
     = replay (problem_at (team_at s lt) (unfreeze_prob (team_at s lt) (problemList s)))"
  by (simp add: team_at_unfreeze_same problem_at_def)

lemma problem_at_unfreeze_other:
  assumes "(n, p) \<noteq> (lt, unfreeze_prob (team_at s lt) (problemList s))"
  shows "problem_at (team_at (unfreeze lt s) n) p = problem_at (team_at s n) p"
  using assms
  by (cases "n = lt") (auto simp: team_at_unfreeze_other team_at_unfreeze_same problem_at_def)

text \<open>
  A run in which the worst-ranked team has hidden submissions only for a problem that
  is not in the problem list.
\<close>

definition stray :: ICPCSystem where
  "stray =
     snd (flush True
       (exec [ADDTEAM ''a'', ADDTEAM ''b'', START 300 1, FREEZE,
              SUBMIT ''A'' ''a'' ''Wrong_Answer'' 10, SUBMIT ''Z'' ''b'' ''Wrong_Answer'' 20]
          ICPCSystem0))"

lemma stray_lists:
  "teamNames stray = [''a'', ''b'']" "problemList stray = [''A'']"
  by (simp_all add: stray_def run_simps problem_letters)

lemma stray_entries:
  "problems (team_at stray ''a'') ''A''
     = Some \<lparr>solved = False, solveTime = 0, wrongAttempts = 0,
             frozenSubs = [\<lparr>problem = ''A'', status = ''Wrong_Answer'', time = 10\<rparr>],
             wasSolvedBeforeFreeze = False\<rparr>"
  "problems (team_at stray ''b'') ''A'' = None"
  "problems (team_at stray ''b'') ''Z''
     = Some \<lparr>solved = False, solveTime = 0, wrongAttempts = 0,
             frozenSubs = [\<lparr>problem = ''Z'', status = ''Wrong_Answer'', time = 20\<rparr>],
             wasSolvedBeforeFreeze = False\<rparr>"
  by (simp_all add: stray_def run_simps)

lemma stray_infos:
  "getTeamRankInfo stray ''a''
     = \<lparr>info_name = ''a'', info_solved = 0, info_penalty = 0, info_times = []\<rparr>"
  "getTeamRankInfo stray ''b''
     = \<lparr>info_name = ''b'', info_solved = 0, info_penalty = 0, info_times = []\<rparr>"
  by (simp_all add: getTeamRankInfo_def stray_lists stray_entries rank_step_def counted_def)

lemma stray_cached: "lastRanking stray = [(''a'', 1), (''b'', 2)]"
proof -
  have "rank_indices stray = [0, 1]"
    by (simp add: rank_indices_def stray_lists stray_infos sort_by_def better_def str_less_def)
  then have "calculateRanking stray = [(''a'', 1), (''b'', 2)]"
    by (simp add: calculateRanking_def stray_lists upt_rec)
  then show ?thesis using lastRanking_flush [of True] by (simp add: stray_def)
qed

text \<open>
  A run in which the only hidden submission is that of a team created by the submission.
\<close>

definition ghost_hidden :: ICPCSystem where
  "ghost_hidden =
     snd (flush True
       (exec [ADDTEAM ''a'', START 300 1, FREEZE, SUBMIT ''A'' ''ghost'' ''Wrong_Answer'' 10]
          ICPCSystem0))"

lemma ghost_hidden_fields:
  "teamNames ghost_hidden = [''a'']" "problemList ghost_hidden = [''A'']"
  "problems (team_at ghost_hidden ''a'') ''A'' = None"
  "problems (team_at ghost_hidden ''ghost'') ''A''
     = Some \<lparr>solved = False, solveTime = 0, wrongAttempts = 0,
             frozenSubs = [\<lparr>problem = ''A'', status = ''Wrong_Answer'', time = 10\<rparr>],
             wasSolvedBeforeFreeze = False\<rparr>"
  by (simp_all add: ghost_hidden_def run_simps problem_letters)

lemma ghost_hidden_cached: "lastRanking ghost_hidden = [(''a'', 1)]"
proof -
  have "rank_indices ghost_hidden = [0]"
    by (simp add: rank_indices_def ghost_hidden_fields sort_by_def)
  then have "calculateRanking ghost_hidden = [(''a'', 1)]"
    by (simp add: calculateRanking_def ghost_hidden_fields)
  then show ?thesis using lastRanking_flush [of True] by (simp add: ghost_hidden_def)
qed

text \<open>
  Claim C3, as stated, fails. In \<open>stray\<close> team \<open>b\<close> has a queue that is not empty and the
  larger rank, and the step takes team \<open>a\<close>. In \<open>ghost_hidden\<close> the team \<open>ghost\<close> has a
  queue that is not empty, for the listed problem, and the scan finds no team.
\<close>

theorem reveal_skips_unlisted_problem_counterexample:
  "scan_frozen stray = (True, ''a'', 1)
   \<and> rank_in (lastRanking stray) ''b'' = 2
   \<and> frozenSubs (problem_at (team_at stray ''b'') ''Z'')
       = [\<lparr>problem = ''Z'', status = ''Wrong_Answer'', time = 20\<rparr>]
   \<and> scan_frozen ghost_hidden = (False, [], 0)
   \<and> frozenSubs (problem_at (team_at ghost_hidden ''ghost'') ''A'')
       = [\<lparr>problem = ''A'', status = ''Wrong_Answer'', time = 10\<rparr>]"
  by (simp add: scan_frozen_def scan_step_def stray_cached stray_lists has_frozen_def
        stray_entries rank_in_def problem_at_def ghost_hidden_cached ghost_hidden_fields)

text \<open>
  Claim C3, amended: the teams considered are the ranked (registered) ones and the
  problems those of the problem list. The loop of \<^verbatim>\<open>scroll\<close> starts in a state
  \<open>loop_head\<close> and every reveal step leads to one. In such a state the scan finds a team
  exactly when some registered team has a listed problem with hidden submissions. The team
  it finds is in the current ranking with the rank the scan reports, has such a problem,
  and no ranked team with such a problem has a larger rank. The problem revealed is the
  first one in \<^verbatim>\<open>problemList\<close> (the order \<^verbatim>\<open>A\<close>, \<^verbatim>\<open>B\<close>, \<dots>) whose queue is not empty.
  Its entry becomes the replay of the queue: nothing but an empty queue when the problem
  was solved; otherwise one wrong attempt for each submission ahead of the first
  \<^verbatim>\<open>Accepted\<close> one, which sets \<open>solved\<close>, \<open>solveTime\<close> and \<open>wasSolvedBeforeFreeze\<close>, the
  later ones changing nothing; and the queue is empty afterwards. No other entry of any
  team changes.
\<close>

theorem reveal_step_selection:
  "loop_head (snd (flush True (exec cs ICPCSystem0)))
   \<and> (\<forall>s lt lr. loop_head s \<and> scan_frozen s = (True, lt, lr) \<longrightarrow>
        loop_head (unfreeze lt s)
        \<and> (lt, lr) \<in> set (calculateRanking s)
        \<and> (\<exists>p\<in>set (problemList s). frozenSubs (problem_at (team_at s lt) p) \<noteq> [])
        \<and> (\<forall>n r. (n, r) \<in> set (calculateRanking s)
               \<and> (\<exists>p\<in>set (problemList s). frozenSubs (problem_at (team_at s n) p) \<noteq> [])
               \<longrightarrow> r \<le> lr)
        \<and> (\<exists>k<length (problemList s).
               unfreeze_prob (team_at s lt) (problemList s) = problemList s ! k
               \<and> frozenSubs (problem_at (team_at s lt) (problemList s ! k)) \<noteq> []
               \<and> (\<forall>j<k. frozenSubs (problem_at (team_at s lt) (problemList s ! j)) = []))
        \<and> problem_at (team_at (unfreeze lt s) lt) (unfreeze_prob (team_at s lt) (problemList s))
             = replay (problem_at (team_at s lt) (unfreeze_prob (team_at s lt) (problemList s)))
        \<and> (\<forall>n p. (n, p) \<noteq> (lt, unfreeze_prob (team_at s lt) (problemList s)) \<longrightarrow>
               problem_at (team_at (unfreeze lt s) n) p = problem_at (team_at s n) p))
   \<and> (\<forall>s. loop_head s \<longrightarrow>
        fst (scan_frozen s)
          = (\<exists>n\<in>set (teamNames s). \<exists>p\<in>set (problemList s).
               frozenSubs (problem_at (team_at s n) p) \<noteq> []))
   \<and> (\<forall>ps. replay ps =
        (if solved ps then ps\<lparr>frozenSubs := []\<rparr>
         else case first_accepted (frozenSubs ps) of
                None \<Rightarrow> ps\<lparr>wrongAttempts := wrongAttempts ps + int (length (frozenSubs ps)),
                           frozenSubs := []\<rparr>
              | Some acc \<Rightarrow>
                  ps\<lparr>wrongAttempts := wrongAttempts ps + int (length (rejected (frozenSubs ps))),
                     solved := True, solveTime := time acc, wasSolvedBeforeFreeze := True,
                     frozenSubs := []\<rparr>))"
proof (intro conjI allI impI)
  show "loop_head (snd (flush True (exec cs ICPCSystem0)))" by (rule loop_head_start)
next
  fix s lt lr
  assume "loop_head s \<and> scan_frozen s = (True, lt, lr)"
  then have H: "loop_head s" and sc: "scan_frozen s = (True, lt, lr)" by simp_all
  from H have fr: "lastRanking s = calculateRanking s" by (simp add: loop_head_def)
  note F = scan_frozen_fresh [OF fr sc]
  show "loop_head (unfreeze lt s)" by (rule loop_head_unfreeze [OF H])
  show "(lt, lr) \<in> set (calculateRanking s)" using F(1) fr by simp
  show "\<exists>p\<in>set (problemList s). frozenSubs (problem_at (team_at s lt) p) \<noteq> []"
    using F(2) by (simp add: team_hidden_iff)
  show "\<exists>k<length (problemList s).
               unfreeze_prob (team_at s lt) (problemList s) = problemList s ! k
               \<and> frozenSubs (problem_at (team_at s lt) (problemList s ! k)) \<noteq> []
               \<and> (\<forall>j<k. frozenSubs (problem_at (team_at s lt) (problemList s ! j)) = [])"
    using unfreeze_prob_first [OF F(2)] by (simp add: has_frozen_problem_at)
  show "problem_at (team_at (unfreeze lt s) lt) (unfreeze_prob (team_at s lt) (problemList s))
             = replay (problem_at (team_at s lt) (unfreeze_prob (team_at s lt) (problemList s)))"
    by (rule problem_at_unfreeze_same)
  {
    fix n r
    assume a: "(n, r) \<in> set (calculateRanking s)
               \<and> (\<exists>p\<in>set (problemList s). frozenSubs (problem_at (team_at s n) p) \<noteq> [])"
    then have "(n, r) \<in> set (lastRanking s)" and "team_hidden s (fst (n, r))"
      using fr by (simp_all add: team_hidden_iff)
    with F(3) have "snd (n, r) \<le> lr" by blast
    then show "r \<le> lr" by simp
  }
  {
    fix n p
    assume "(n, p) \<noteq> (lt, unfreeze_prob (team_at s lt) (problemList s))"
    then show "problem_at (team_at (unfreeze lt s) n) p = problem_at (team_at s n) p"
      by (rule problem_at_unfreeze_other)
  }
next
  fix s
  assume "loop_head s"
  then show "fst (scan_frozen s)
          = (\<exists>n\<in>set (teamNames s). \<exists>p\<in>set (problemList s).
               frozenSubs (problem_at (team_at s n) p) \<noteq> [])"
    using scan_frozen_flag [of s] by (simp add: loop_head_def team_hidden_iff)
next
  fix ps
  show "replay ps =
        (if solved ps then ps\<lparr>frozenSubs := []\<rparr>
         else case first_accepted (frozenSubs ps) of
                None \<Rightarrow> ps\<lparr>wrongAttempts := wrongAttempts ps + int (length (frozenSubs ps)),
                           frozenSubs := []\<rparr>
              | Some acc \<Rightarrow>
                  ps\<lparr>wrongAttempts := wrongAttempts ps + int (length (rejected (frozenSubs ps))),
                     solved := True, solveTime := time acc, wasSolvedBeforeFreeze := True,
                     frozenSubs := []\<rparr>)"
    by (rule replay_closed_form)
qed

theorem reveal_step_selection_witness:
  "loop_head overtake \<and> scan_frozen overtake = (True, ''b'', 2)
   \<and> (''b'', 2) \<in> set (calculateRanking overtake)
   \<and> unfreeze_prob (team_at overtake ''b'') (problemList overtake) = ''A''
   \<and> frozenSubs (problem_at (team_at overtake ''b'') ''A'')
       = [\<lparr>problem = ''A'', status = ''Wrong_Answer'', time = 110\<rparr>,
          \<lparr>problem = ''A'', status = ''Accepted'', time = 115\<rparr>,
          \<lparr>problem = ''A'', status = ''Accepted'', time = 118\<rparr>]
   \<and> replay (problem_at (team_at overtake ''b'') ''A'')
       = \<lparr>solved = True, solveTime = 115, wrongAttempts = 1, frozenSubs = [],
          wasSolvedBeforeFreeze = True\<rparr>
   \<and> problem_at (team_at (unfreeze ''b'' overtake) ''b'') ''A''
       = \<lparr>solved = True, solveTime = 115, wrongAttempts = 1, frozenSubs = [],
          wasSolvedBeforeFreeze = True\<rparr>
   \<and> problem_at (team_at (unfreeze ''b'' overtake) ''a'') ''A''
       = problem_at (team_at overtake ''a'') ''A''"
proof -
  note T = reveal_step_selection
    [of "[ADDTEAM ''a'', ADDTEAM ''b'', START 300 1,
              SUBMIT ''A'' ''a'' ''Wrong_Answer'' 50, SUBMIT ''A'' ''a'' ''Wrong_Answer'' 60,
              SUBMIT ''A'' ''a'' ''Accepted'' 100, FREEZE,
              SUBMIT ''A'' ''b'' ''Wrong_Answer'' 110, SUBMIT ''A'' ''b'' ''Accepted'' 115,
              SUBMIT ''A'' ''b'' ''Accepted'' 118]", folded overtake_def]
  from T have H: "loop_head overtake" by (rule conjunct1)
  note S = T [THEN conjunct2, THEN conjunct1, rule_format, OF conjI [OF H overtake_scan]]
  note c2 = conjunct2
  note m = S [THEN c2, THEN conjunct1]
  note r = S [THEN c2, THEN c2, THEN c2, THEN c2, THEN c2, THEN conjunct1]
  have ne: "(''a'', ''A'') \<noteq> (''b'', unfreeze_prob (team_at overtake ''b'') (problemList overtake))"
    by simp
  note o = S [THEN c2, THEN c2, THEN c2, THEN c2, THEN c2, THEN c2, rule_format, OF ne]
  have q: "frozenSubs (problem_at (team_at overtake ''b'') ''A'')
       = [\<lparr>problem = ''A'', status = ''Wrong_Answer'', time = 110\<rparr>,
          \<lparr>problem = ''A'', status = ''Accepted'', time = 115\<rparr>,
          \<lparr>problem = ''A'', status = ''Accepted'', time = 118\<rparr>]"
    by (simp add: problem_at_def overtake_b)
  from H overtake_scan m r o q overtake_problem overtaken_b show ?thesis
    by (simp add: overtaken_def)
qed

section \<open>The ranking query\<close>

subsection \<open>The cached ranking\<close>

definition cached_ok :: "ICPCSystem \<Rightarrow> bool" where
  "cached_ok s = (registered s \<and> distinct (map fst (lastRanking s)))"

lemma cached_ok_unfreeze: "cached_ok s \<Longrightarrow> cached_ok (unfreeze lt s)"
  using distinct_ranking_names [of "unfreeze lt s"]
  by (simp add: cached_ok_def registered_unfreeze lastRanking_unfreeze)
     (simp add: registered_def)

lemma cached_ok_flush: "cached_ok s \<Longrightarrow> cached_ok (snd (flush silent s))"
  using distinct_ranking_names [of s] registered_flush [of s silent]
  by (simp add: cached_ok_def) (simp add: registered_def flush_def)

lemma cached_ok_scroll:
  assumes "cached_ok s"
  shows "cached_ok (snd (scroll s))"
proof -
  have "cached_ok (s\<lparr>lastRanking := calculateRanking s\<rparr>)"
    using cached_ok_flush [OF assms, of True] by (simp add: flush_def)
  then have "cached_ok (snd (scroll_loop (s\<lparr>lastRanking := calculateRanking s\<rparr>)))"
    using scroll_loop_preserves [of cached_ok, OF cached_ok_unfreeze] by blast
  then have "cached_ok ((snd (scroll_loop (s\<lparr>lastRanking := calculateRanking s\<rparr>)))\<lparr>frozen := False\<rparr>)"
    by (simp add: cached_ok_def registered_frozen_update)
  with assms show ?thesis by (simp add: scroll_state)
qed

lemma cached_ok_step:
  assumes "cached_ok s" "step c s = Inr r"
  shows "cached_ok (snd r)"
  using assms(2)
proof (rule step_cases)
  fix d n
  show "cached_ok (s\<lparr>started := True, durationTime := d, problemCount := n,
          problemList := problemList s @ map (\<lambda>i. [char_of (65 + i)]) [0..<nat n]\<rparr>)"
    using assms(1) by (simp add: cached_ok_def registered_def)
next
  fix n show "cached_ok (snd (addTeam n s))"
    using assms(1) registered_addTeam [of s n]
    by (simp add: cached_ok_def) (simp add: addTeam_def)
next
  fix prob teamName stat tm
  show "cached_ok (submit prob teamName stat tm s)"
    using assms(1) by (simp add: cached_ok_def registered_submit)
next
  show "cached_ok (snd (freeze s))"
    using assms(1) registered_freeze [of s]
    by (simp add: cached_ok_def) (simp add: freeze_def)
qed (use assms(1) in \<open>simp_all add: cached_ok_flush cached_ok_scroll\<close>)

lemma reach_cached_ok: "cached_ok (exec cs ICPCSystem0)"
  by (rule exec_induct [of cached_ok, OF _ cached_ok_step])
     (simp add: cached_ok_def registered_initial, simp add: ICPCSystem0_def)

lemma rank_in_distinct:
  assumes "distinct (map fst r)" "(n, k) \<in> set r"
  shows "rank_in r n = k"
  using assms
proof (induction r)
  case Nil
  then show ?case by simp
next
  case (Cons p r)
  show ?case
  proof (cases "fst p = n")
    case True
    with Cons.prems have "p = (n, k)" by (cases p) force
    then show ?thesis by (simp add: rank_in_def)
  next
    case False
    with Cons have "rank_in r n = k" by auto
    with False show ?thesis by (simp add: rank_in_def)
  qed
qed

lemma getTeamRankInfo_frozen: "getTeamRankInfo (s\<lparr>frozen := b\<rparr>) = getTeamRankInfo s"
  by (rule ext) (simp add: getTeamRankInfo_def team_at_def)

lemma calculateRanking_frozen: "calculateRanking (s\<lparr>frozen := b\<rparr>) = calculateRanking s"
  by (simp add: calculateRanking_def rank_indices_def getTeamRankInfo_frozen)

lemma fresh_after_scroll:
  assumes "frozen s"
  shows "lastRanking (snd (scroll s)) = calculateRanking (snd (scroll s))"
proof -
  let ?P = "\<lambda>s. lastRanking s = calculateRanking s"
  have "?P (snd (scroll_loop (s\<lparr>lastRanking := calculateRanking s\<rparr>)))"
    by (rule scroll_loop_preserves [of ?P]) (simp_all add: lastRanking_unfreeze)
  moreover have "calculateRanking (x\<lparr>frozen := False\<rparr>) = calculateRanking x" for x
    by (rule calculateRanking_frozen)
  ultimately show ?thesis using assms by (simp add: scroll_state)
qed

lemma lastRanking_kept:
  assumes "step c s = Inr r" "c \<noteq> FLUSH" "c \<noteq> SCROLL"
  shows "lastRanking (snd r) = lastRanking s"
  using assms
  by (cases c) (auto simp: addTeam_def start_def freeze_def split: if_splits)

subsection \<open>The alphabetical position\<close>

lemma alphabetical_rank_card:
  assumes d: "distinct names" and n: "n \<in> set names"
  shows "alphabetical_rank names n = int (card {m \<in> set names. str_less m n}) + 1"
proof -
  let ?S = "sort_by str_less names"
  have srt: "sorted_wrt str_less ?S"
  proof (rule sorted_sort_by)
    fix a b c assume "str_less a b" "str_less b c"
    then show "str_less a c" by (rule str_less_trans)
  next
    fix a b :: string assume "a \<noteq> b"
    then show "str_less a b \<or> str_less b a" by (rule str_less_total)
  next
    show "distinct names" by (rule d)
  qed
  have set: "set ?S = set names" by (rule set_sort_by)
  from n set obtain i where i: "i < length ?S" "?S ! i = n"
    by (metis in_set_conv_nth)
  have dS: "distinct ?S" using d by (simp add: distinct_sort_by)
  have "find (\<lambda>j. ?S ! j = n) [0..<length ?S] = Some i"
    unfolding find_Some_iff
  proof (intro exI [of _ i] conjI allI impI)
    show "i < length [0..<length ?S]" using i(1) by simp
    show "?S ! ([0..<length ?S] ! i) = n" using i by simp
    show "i = [0..<length ?S] ! i" using i(1) by simp
    fix j assume "j < i"
    then have "j < length ?S" "j \<noteq> i" using i(1) by simp_all
    with nth_eq_iff_index_eq [OF dS _ i(1), of j] i(2) have "?S ! j \<noteq> n" by auto
    then show "\<not> ?S ! ([0..<length ?S] ! j) = n" using \<open>j < length ?S\<close> by simp
  qed
  then have "alphabetical_rank names n = int i + 1"
    by (simp add: alphabetical_rank_def Let_def)
  moreover have "card {m \<in> set ?S. str_less m (?S ! i)} = i"
    by (rule sorted_index_card [OF str_less_irrefl str_less_trans srt i(1)])
  ultimately show ?thesis using i(2) set by simp
qed


subsection \<open>Runs with a flush before the contest starts\<close>

definition early_flush :: ICPCSystem where
  "early_flush = exec [FLUSH, ADDTEAM ''a'', ADDTEAM ''b'', START 300 1] ICPCSystem0"

definition stale_flush :: ICPCSystem where
  "stale_flush = exec [ADDTEAM ''b'', FLUSH, ADDTEAM ''a'', START 300 1] ICPCSystem0"

lemma early_flush_fields:
  "lastRanking early_flush = []" "teamNames early_flush = [''a'', ''b'']"
  "frozen early_flush = False" "teams early_flush ''b'' \<noteq> None"
  by (simp_all add: early_flush_def run_simps rank_simps)

lemma stale_flush_fields:
  "lastRanking stale_flush = [(''b'', 1)]" "teamNames stale_flush = [''b'', ''a'']"
  "frozen stale_flush = False" "teams stale_flush ''a'' \<noteq> None"
  by (simp_all add: stale_flush_def run_simps rank_simps)

lemma alphabetical_examples:
  "alphabetical_rank [''a'', ''b''] ''b'' = 2" "alphabetical_rank [''b'', ''a''] ''a'' = 1"
  by (simp_all add: alphabetical_rank_def sort_by_def str_less_def upt_rec)

text \<open>
  Claim C5, as stated, fails. In \<open>early_flush\<close> a flush has occurred, and the query
  reports the alphabetical position of \<open>b\<close>, which the flushed snapshot (it is empty) does
  not hold. In \<open>stale_flush\<close> no flush has occurred since \<^verbatim>\<open>START\<close>, the alphabetical
  position of \<open>a\<close> is 1, and the query reports 0, from the snapshot of the flush before
  \<^verbatim>\<open>START\<close>.
\<close>

theorem query_ranking_flush_counterexample:
  "lastRanking early_flush = []
   \<and> queryRanking ''b'' early_flush = [QueryRankingInfo, NowAtRanking ''b'' 2]
   \<and> rank_in (lastRanking early_flush) ''b'' = 0
   \<and> lastRanking stale_flush = [(''b'', 1)]
   \<and> alphabetical_rank (teamNames stale_flush) ''a'' = 1
   \<and> queryRanking ''a'' stale_flush = [QueryRankingInfo, NowAtRanking ''a'' 0]"
  using early_flush_fields stale_flush_fields alphabetical_examples
  by (simp add: queryRanking_def rank_in_def)

text \<open>
  Claim C5, amended: the test is whether the cached ranking is empty, not whether a
  flush has occurred. After any command sequence, \<^verbatim>\<open>queryRanking\<close> fails exactly when the
  team has no entry. Otherwise it writes its information line, the warning exactly when
  the board is frozen, and the rank: when \<^verbatim>\<open>lastRanking\<close> is not empty the rank paired
  with the team there, 0 when the team is not in it; when \<^verbatim>\<open>lastRanking\<close> is empty one
  more than the number of registered names below the team's name, 0 when the team is not
  registered. \<^verbatim>\<open>lastRanking\<close> is written by \<^verbatim>\<open>flush\<close> and by \<^verbatim>\<open>scroll\<close> on a frozen board,
  which leave it equal to the ranking of their final state; \<^verbatim>\<open>scroll\<close> on a board that is
  not frozen changes nothing, and no other command changes \<^verbatim>\<open>lastRanking\<close>.
\<close>

theorem query_ranking_cached:
  fixes cs :: "cmd list" and n :: string
  defines "s \<equiv> exec cs ICPCSystem0"
  shows "(queryRanking n s = [QueryRankingFail]) = (teams s n = None)
       \<and> (teams s n \<noteq> None \<longrightarrow>
            queryRanking n s =
              [QueryRankingInfo] @ (if frozen s then [QueryRankingWarning] else [])
              @ [NowAtRanking n
                   (if lastRanking s \<noteq> [] then rank_in (lastRanking s) n
                    else alphabetical_rank (teamNames s) n)])
       \<and> (\<forall>r. (n, r) \<in> set (lastRanking s) \<longrightarrow> rank_in (lastRanking s) n = r)
       \<and> (n \<notin> fst ` set (lastRanking s) \<longrightarrow> rank_in (lastRanking s) n = 0)
       \<and> (n \<in> set (teamNames s) \<longrightarrow>
            alphabetical_rank (teamNames s) n
              = int (card {m \<in> set (teamNames s). str_less m n}) + 1)
       \<and> (n \<notin> set (teamNames s) \<longrightarrow> alphabetical_rank (teamNames s) n = 0)
       \<and> (\<forall>x silent. lastRanking (snd (flush silent x)) = calculateRanking (snd (flush silent x)))
       \<and> (\<forall>x. frozen x \<longrightarrow> lastRanking (snd (scroll x)) = calculateRanking (snd (scroll x)))
       \<and> (\<forall>x. \<not> frozen x \<longrightarrow> snd (scroll x) = x)
       \<and> (\<forall>c x r. step c x = Inr r \<and> c \<noteq> FLUSH \<and> c \<noteq> SCROLL \<longrightarrow>
             lastRanking (snd r) = lastRanking x)"
proof (intro conjI allI impI)
  show "snd (scroll x) = x" if "\<not> frozen x" for x
    using that by (simp add: scroll_def)
  have C: "cached_ok s" unfolding s_def by (rule reach_cached_ok)
  then have d: "distinct (teamNames s)" and dl: "distinct (map fst (lastRanking s))"
    by (simp_all add: cached_ok_def registered_def)
  show "(queryRanking n s = [QueryRankingFail]) = (teams s n = None)"
    by (simp add: queryRanking_def)
  show "queryRanking n s =
              [QueryRankingInfo] @ (if frozen s then [QueryRankingWarning] else [])
              @ [NowAtRanking n
                   (if lastRanking s \<noteq> [] then rank_in (lastRanking s) n
                    else alphabetical_rank (teamNames s) n)]"
    if "teams s n \<noteq> None"
    using that by (simp add: queryRanking_def)
  show "rank_in (lastRanking s) n = r" if "(n, r) \<in> set (lastRanking s)" for r
    by (rule rank_in_distinct [OF dl that])
  show "rank_in (lastRanking s) n = 0" if "n \<notin> fst ` set (lastRanking s)"
    by (rule rank_in_absent [OF that])
  show "alphabetical_rank (teamNames s) n = int (card {m \<in> set (teamNames s). str_less m n}) + 1"
    if "n \<in> set (teamNames s)"
    by (rule alphabetical_rank_card [OF d that])
  show "alphabetical_rank (teamNames s) n = 0" if "n \<notin> set (teamNames s)"
    by (rule alphabetical_rank_absent [OF that])
  show "lastRanking (snd (flush silent x)) = calculateRanking (snd (flush silent x))" for x silent
    by (rule lastRanking_flush)
  show "lastRanking (snd (scroll x)) = calculateRanking (snd (scroll x))" if "frozen x" for x
    by (rule fresh_after_scroll [OF that])
  show "lastRanking (snd r) = lastRanking x"
    if "step c x = Inr r \<and> c \<noteq> FLUSH \<and> c \<noteq> SCROLL" for c x r
    using that lastRanking_kept by blast
qed

text \<open>
  A run in which the cached ranking differs from the ranking of the current state, with
  the board frozen.
\<close>

definition cached_run :: "cmd list" where
  "cached_run =
     [ADDTEAM ''a'', ADDTEAM ''b'', START 300 1, FLUSH, SUBMIT ''A'' ''b'' ''Accepted'' 10,
      FREEZE]"

lemma cached_run_fields:
  "lastRanking (exec cached_run ICPCSystem0) = [(''a'', 1), (''b'', 2)]"
  "frozen (exec cached_run ICPCSystem0)" "teams (exec cached_run ICPCSystem0) ''b'' \<noteq> None"
  "teamNames (exec cached_run ICPCSystem0) = [''a'', ''b'']"
  "problemList (exec cached_run ICPCSystem0) = [''A'']"
  "problems (team_at (exec cached_run ICPCSystem0) ''a'') ''A'' = None"
  "problems (team_at (exec cached_run ICPCSystem0) ''b'') ''A''
     = Some \<lparr>solved = True, solveTime = 10, wrongAttempts = 0, frozenSubs = [],
             wasSolvedBeforeFreeze = True\<rparr>"
  by (simp_all add: cached_run_def run_simps rank_simps problem_letters)

theorem query_ranking_cached_witness:
  "teams (exec cached_run ICPCSystem0) ''b'' \<noteq> None
   \<and> lastRanking (exec cached_run ICPCSystem0) = [(''a'', 1), (''b'', 2)]
   \<and> calculateRanking (exec cached_run ICPCSystem0) = [(''b'', 1), (''a'', 2)]
   \<and> queryRanking ''b'' (exec cached_run ICPCSystem0)
       = [QueryRankingInfo, QueryRankingWarning, NowAtRanking ''b'' 2]
   \<and> queryRanking ''ghost'' (exec cached_run ICPCSystem0) = [QueryRankingFail]"
proof -
  let ?s = "exec cached_run ICPCSystem0"
  have I: "getTeamRankInfo ?s ''a''
       = \<lparr>info_name = ''a'', info_solved = 0, info_penalty = 0, info_times = []\<rparr>"
    "getTeamRankInfo ?s ''b''
       = \<lparr>info_name = ''b'', info_solved = 1, info_penalty = 10, info_times = [10]\<rparr>"
    by (simp_all add: getTeamRankInfo_def cached_run_fields rank_step_def counted_def wrap32_def)
  have "rank_indices ?s = [1, 0]"
    by (simp add: rank_indices_def cached_run_fields I sort_by_def better_def)
  then have R: "calculateRanking ?s = [(''b'', 1), (''a'', 2)]"
    by (simp add: calculateRanking_def cached_run_fields upt_rec)
  have G: "teams ?s ''ghost'' = None" by (simp add: cached_run_def run_simps)
  note T = query_ranking_cached [of "''b''" cached_run]
  note c2 = conjunct2
  from T [THEN c2, THEN conjunct1, rule_format, OF cached_run_fields(3)]
  have Q: "queryRanking ''b'' ?s
        = [QueryRankingInfo] @ [QueryRankingWarning] @ [NowAtRanking ''b'' (rank_in (lastRanking ?s) ''b'')]"
    using cached_run_fields(1,2) by simp
  have M: "(''b'', 2) \<in> set (lastRanking ?s)" by (simp add: cached_run_fields(1))
  from T [THEN c2, THEN c2, THEN conjunct1, rule_format, OF M]
  have K: "rank_in (lastRanking ?s) ''b'' = 2" .
  from query_ranking_cached [of "''ghost''" cached_run, THEN conjunct1] G
  have F: "queryRanking ''ghost'' ?s = [QueryRankingFail]" by simp
  from cached_run_fields(1,3) R Q K F show ?thesis by simp
qed

section \<open>A penalty that wraps around\<close>

text \<open>
  A run in which a penalty wraps around: one wrong attempt and a solution at the largest
  32-bit time give team \<open>t\<close> a negative penalty, which ranks it ahead of team \<open>u\<close>.
\<close>

definition wrapped_penalty :: ICPCSystem where
  "wrapped_penalty =
     exec [ADDTEAM ''t'', ADDTEAM ''u'', START 300 1,
           SUBMIT ''A'' ''t'' ''Wrong_Answer'' 1, SUBMIT ''A'' ''t'' ''Accepted'' 2147483647,
           SUBMIT ''A'' ''u'' ''Accepted'' 100] ICPCSystem0"

lemma wrapped_penalty_ranking:
  "getTeamRankInfo wrapped_penalty ''t''
     = \<lparr>info_name = ''t'', info_solved = 1, info_penalty = - 2147483629,
        info_times = [2147483647]\<rparr>
   \<and> getTeamRankInfo wrapped_penalty ''u''
     = \<lparr>info_name = ''u'', info_solved = 1, info_penalty = 100, info_times = [100]\<rparr>
   \<and> calculateRanking wrapped_penalty = [(''t'', 1), (''u'', 2)]"
proof -
  have names: "teamNames wrapped_penalty = [''t'', ''u'']"
    and probs: "problemList wrapped_penalty = [''A'']"
    by (simp_all add: wrapped_penalty_def run_simps problem_letters)
  have pt: "problems (team_at wrapped_penalty ''t'') ''A''
        = Some \<lparr>solved = True, solveTime = 2147483647, wrongAttempts = 1, frozenSubs = [],
                 wasSolvedBeforeFreeze = True\<rparr>"
    and pu: "problems (team_at wrapped_penalty ''u'') ''A''
        = Some \<lparr>solved = True, solveTime = 100, wrongAttempts = 0, frozenSubs = [],
                 wasSolvedBeforeFreeze = True\<rparr>"
    by (simp_all add: wrapped_penalty_def run_simps)
  have T: "getTeamRankInfo wrapped_penalty ''t''
     = \<lparr>info_name = ''t'', info_solved = 1, info_penalty = - 2147483629,
        info_times = [2147483647]\<rparr>"
    by (simp add: getTeamRankInfo_def probs pt rank_step_def counted_def wrap32_def)
  have U: "getTeamRankInfo wrapped_penalty ''u''
     = \<lparr>info_name = ''u'', info_solved = 1, info_penalty = 100, info_times = [100]\<rparr>"
    by (simp add: getTeamRankInfo_def probs pu rank_step_def counted_def wrap32_def)
  have "rank_indices wrapped_penalty = [0, 1]"
    by (simp add: rank_indices_def names T U sort_by_def better_def)
  then have "calculateRanking wrapped_penalty = [(''t'', 1), (''u'', 2)]"
    by (simp add: calculateRanking_def names upt_rec)
  with T U show ?thesis by simp
qed

end
